theory Spec2Isabelle
  imports Main "HOL-Library.Sublist"
begin

section \<open>Text\<close>

text \<open>
  A Python \<open>str\<close> is a sequence of Unicode code points.  Isabelle's \<open>char\<close> has 8 bits
  only, so text is modelled as a list of code points; \<open>str\<close> turns an ASCII literal of
  the source into such a list.
\<close>

type_synonym codepoint = nat
type_synonym pystr = "codepoint list"

definition str :: "string \<Rightarrow> pystr" where
  "str s = map of_char s"

definition backslash :: codepoint where
  "backslash = 92"

definition newline :: codepoint where
  "newline = 10"

section \<open>The rule tables\<close>

text \<open>
  The three module-level lists of \<open>migrate_imports.py\<close>, in the order of the source, as
  the string literals written there; \<open>literal\<close> gives the pair of Python strings that
  an element denotes.
\<close>

definition literal :: "string \<times> string \<Rightarrow> pystr \<times> pystr" where
  "literal rule = (str (fst rule), str (snd rule))"

definition UI_REPLACEMENTS :: "(string \<times> string) list" where
  "UI_REPLACEMENTS =
    [(''use crate::ui::shadcn::'', ''use oxui::shadcn::''),
     (''use crate::ui::radix::'', ''use oxui::radix::''),
     (''use crate::ui::custom::'', ''use oxui::custom::''),
     (''use crate::ui::components::animated_grid'',
      ''use oxui::components::animated_grid''),
     (''use crate::ui::components::confirm_dialog'',
      ''use oxui::components::confirm_dialog''),
     (''use crate::ui::components::error'', ''use oxui::components::error''),
     (''use crate::ui::components::form'', ''use oxui::components::form''),
     (''use crate::ui::components::loading_overlay'',
      ''use oxui::components::loading_overlay''),
     (''use crate::ui::components::portal_v2'', ''use oxui::components::portal_v2'')]"

definition DOMAIN_REPLACEMENTS :: "(string \<times> string) list" where
  "DOMAIN_REPLACEMENTS =
    [(''use crate::ui::components::tag'', ''use ruxlog_shared::components::tag''),
     (''use crate::ui::components::user_avatar'',
      ''use ruxlog_shared::components::user_avatar'')]"

definition STORE_REPLACEMENTS :: "(string \<times> string) list" where
  "STORE_REPLACEMENTS =
    [(''use crate::store::'', ''use ruxlog_shared::store::''),
     (''from crate::store'', ''from ruxlog_shared::store'')]"

section \<open>Python's \<open>re.search\<close> and \<open>re.sub\<close>\<close>

text \<open>
  The source calls \<open>re.search(old_pattern, content)\<close> and
  \<open>re.sub(old_pattern, new_pattern, content)\<close>.  The model covers this fragment of the
  pattern language: a pattern is a sequence of items, an item is an atom (an ordinary
  character, an escaped punctuation character, or \<open>.\<close>) with an optional greedy
  quantifier \<open>*\<close>, \<open>+\<close> or \<open>?\<close>.  Every other use of a special character (groups,
  alternation, classes, anchors, counted, lazy and possessive repetition, escapes of
  letters and digits) raises \<open>ReError\<close> in the model; so does a replacement template
  with a backslash that is not followed by a backslash, \<open>n\<close>, \<open>t\<close> or \<open>r\<close>.
\<close>

datatype error =
    FileNotFoundError | PermissionError | UnicodeDecodeError | UnicodeEncodeError | ReError

datatype atom = Lit codepoint | Dot

datatype quant = One | Star | Plus | Opt

type_synonym item = "atom \<times> quant"

datatype token = TAtom atom | TQuant quant | TBad

definition special_chars :: "codepoint list" where
  "special_chars = backslash # str ''.^$*+?{}[]|()''"

definition is_alnum :: "codepoint \<Rightarrow> bool" where
  "is_alnum c \<longleftrightarrow> (48 \<le> c \<and> c \<le> 57) \<or> (65 \<le> c \<and> c \<le> 90) \<or> (97 \<le> c \<and> c \<le> 122)"

definition token_of :: "codepoint \<Rightarrow> token" where
  "token_of c =
    (if c = of_char CHR ''.'' then TAtom Dot
     else if c = of_char CHR ''*'' then TQuant Star
     else if c = of_char CHR ''+'' then TQuant Plus
     else if c = of_char CHR ''?'' then TQuant Opt
     else if c \<in> set special_chars then TBad
     else TAtom (Lit c))"

fun tokenize :: "pystr \<Rightarrow> token list" where
  "tokenize [] = []"
| "tokenize [c] = [if c = backslash then TBad else token_of c]"
| "tokenize (c # d # cs) =
    (if c = backslash then (if is_alnum d then TBad else TAtom (Lit d)) # tokenize cs
     else token_of c # tokenize (d # cs))"

fun build :: "token list \<Rightarrow> error + item list" where
  "build [] = Inr []"
| "build (TBad # ts) = Inl ReError"
| "build (TQuant q # ts) = Inl ReError"
| "build (TAtom a # TQuant q # ts) =
    (case build ts of Inl e \<Rightarrow> Inl e | Inr is \<Rightarrow> Inr ((a, q) # is))"
| "build (TAtom a # ts) =
    (case build ts of Inl e \<Rightarrow> Inl e | Inr is \<Rightarrow> Inr ((a, One) # is))"

definition re_compile :: "pystr \<Rightarrow> error + item list" where
  "re_compile pattern = build (tokenize pattern)"

fun atom_ok :: "atom \<Rightarrow> codepoint \<Rightarrow> bool" where
  "atom_ok (Lit c) x = (x = c)"
| "atom_ok Dot x = (x \<noteq> newline)"

text \<open>
  A backtracking matcher as a list of successes: \<open>match_here is s\<close> lists, in the order
  in which the engine tries them, the rests of \<open>s\<close> that remain after a match of
  \<open>is\<close> at the start of \<open>s\<close>.  The engine takes the first.
\<close>

fun match_star :: "atom \<Rightarrow> pystr \<Rightarrow> pystr list" where
  "match_star a [] = [[]]"
| "match_star a (x # xs) = (if atom_ok a x then match_star a xs @ [x # xs] else [x # xs])"

fun match_item :: "item \<Rightarrow> pystr \<Rightarrow> pystr list" where
  "match_item (a, One) [] = []"
| "match_item (a, One) (x # xs) = (if atom_ok a x then [xs] else [])"
| "match_item (a, Star) s = match_star a s"
| "match_item (a, Plus) [] = []"
| "match_item (a, Plus) (x # xs) = (if atom_ok a x then match_star a xs else [])"
| "match_item (a, Opt) [] = [[]]"
| "match_item (a, Opt) (x # xs) = (if atom_ok a x then [xs, x # xs] else [x # xs])"

fun match_here :: "item list \<Rightarrow> pystr \<Rightarrow> pystr list" where
  "match_here [] s = [s]"
| "match_here (i # is) s = concat (map (match_here is) (match_item i s))"

text \<open>
  \<open>first_match\<close>: the match the engine reports at one start position.  With
  \<open>must_advance\<close> (set by \<open>re.sub\<close> after an empty match) an empty match is refused.
\<close>

definition first_match :: "item list \<Rightarrow> bool \<Rightarrow> pystr \<Rightarrow> pystr option" where
  "first_match is must_advance s =
    (case filter (\<lambda>r. \<not> (must_advance \<and> length r = length s)) (match_here is s) of
       [] \<Rightarrow> None
     | r # _ \<Rightarrow> Some r)"

fun search_from :: "item list \<Rightarrow> pystr \<Rightarrow> bool" where
  "search_from is [] = (first_match is False [] \<noteq> None)"
| "search_from is (c # cs) = (first_match is False (c # cs) \<noteq> None \<or> search_from is cs)"

definition re_search :: "pystr \<Rightarrow> pystr \<Rightarrow> error + bool" where
  "re_search pattern string =
    (case re_compile pattern of Inl e \<Rightarrow> Inl e | Inr is \<Rightarrow> Inr (search_from is string))"

fun expand_template :: "pystr \<Rightarrow> error + pystr" where
  "expand_template [] = Inr []"
| "expand_template [c] = (if c = backslash then Inl ReError else Inr [c])"
| "expand_template (c # d # cs) =
    (if c = backslash then
       (if d = backslash then (case expand_template cs of Inl e \<Rightarrow> Inl e | Inr t \<Rightarrow> Inr (backslash # t))
        else if d = of_char CHR ''n'' then (case expand_template cs of Inl e \<Rightarrow> Inl e | Inr t \<Rightarrow> Inr (10 # t))
        else if d = of_char CHR ''t'' then (case expand_template cs of Inl e \<Rightarrow> Inl e | Inr t \<Rightarrow> Inr (9 # t))
        else if d = of_char CHR ''r'' then (case expand_template cs of Inl e \<Rightarrow> Inl e | Inr t \<Rightarrow> Inr (13 # t))
        else Inl ReError)
     else (case expand_template (d # cs) of Inl e \<Rightarrow> Inl e | Inr t \<Rightarrow> Inr (c # t)))"

text \<open>
  The substitution loop of \<open>re.sub\<close>: search from the current position, copy the text
  before the match, emit the replacement, continue after the match; after an empty match
  the next match at the same position must be non-empty.  (With \<open>must_advance\<close>,
  \<open>first_match\<close> reports no empty match, so the second branch is never taken; it makes
  the recursion well-founded by itself.)
\<close>

function sub_scan :: "item list \<Rightarrow> pystr \<Rightarrow> bool \<Rightarrow> pystr \<Rightarrow> pystr" where
  "sub_scan is repl must_advance s =
    (case first_match is must_advance s of
       Some r \<Rightarrow>
         if length r < length s then repl @ sub_scan is repl False r
         else if must_advance then repl
         else repl @ sub_scan is repl True s
     | None \<Rightarrow> (case s of [] \<Rightarrow> [] | x # xs \<Rightarrow> x # sub_scan is repl False xs))"
  by pat_completeness auto
termination
  by (relation "measures [\<lambda>(is, repl, adv, s). length s, \<lambda>(is, repl, adv, s). if adv then 0 else 1]")
     auto

declare sub_scan.simps [simp del]

definition re_sub :: "pystr \<Rightarrow> pystr \<Rightarrow> pystr \<Rightarrow> error + pystr" where
  "re_sub pattern repl string =
    (case re_compile pattern of
       Inl e \<Rightarrow> Inl e
     | Inr is \<Rightarrow>
        (case expand_template repl of
           Inl e \<Rightarrow> Inl e
         | Inr t \<Rightarrow> Inr (sub_scan is t False string)))"

section \<open>Literal search and replace\<close>

text \<open>
  Plain substring search is \<^const>\<open>sublist\<close>.  \<open>replace_all old new s\<close> replaces the
  occurrences of the literal \<open>old\<close> in \<open>s\<close>, leftmost first and without overlap, as
  Python's \<open>s.replace(old, new)\<close> does (with an empty \<open>old\<close>, \<open>new\<close> goes before every
  character and at the end).
\<close>

function replace_all :: "pystr \<Rightarrow> pystr \<Rightarrow> pystr \<Rightarrow> pystr" where
  "replace_all old new [] = (if old = [] then new else [])"
| "replace_all old new (c # cs) =
    (if old = [] then new @ c # replace_all old new cs
     else if prefix old (c # cs) then new @ replace_all old new (drop (length old) (c # cs))
     else c # replace_all old new cs)"
  by pat_completeness auto
termination
  by (relation "measure (\<lambda>(old, new, s). length s)") auto

section \<open>The substitution loops of \<open>process_file\<close>\<close>

text \<open>
  One \<open>for old_pattern, new_pattern in ...\<close> loop.  The state is the pair of the local
  variables \<open>content\<close> and \<open>changes_made\<close>; an exception of \<open>re\<close> leaves the loop.
\<close>

definition change_line :: "pystr \<Rightarrow> pystr \<Rightarrow> pystr" where
  "change_line old_pattern new_pattern =
    str ''  '' @ old_pattern @ str '' -> '' @ new_pattern"

fun apply_replacements ::
  "(pystr \<times> pystr) list \<Rightarrow> pystr \<times> pystr list \<Rightarrow> error + (pystr \<times> pystr list)" where
  "apply_replacements [] st = Inr st"
| "apply_replacements ((old_pattern, new_pattern) # rest) (content, changes_made) =
    (case re_search old_pattern content of
       Inl e \<Rightarrow> Inl e
     | Inr found \<Rightarrow>
        if found then
          (case re_sub old_pattern new_pattern content of
             Inl e \<Rightarrow> Inl e
           | Inr content' \<Rightarrow>
               apply_replacements rest
                 (content', changes_made @ [change_line old_pattern new_pattern]))
        else apply_replacements rest (content, changes_made))"

text \<open>The three loops in sequence, from \<open>original_content\<close> and an empty \<open>changes_made\<close>.\<close>

definition substitute :: "pystr \<Rightarrow> error + (pystr \<times> pystr list)" where
  "substitute original_content =
    (case apply_replacements (map literal UI_REPLACEMENTS) (original_content, []) of
       Inl e \<Rightarrow> Inl e
     | Inr st1 \<Rightarrow>
        (case apply_replacements (map literal DOMAIN_REPLACEMENTS) st1 of
           Inl e \<Rightarrow> Inl e
         | Inr st2 \<Rightarrow> apply_replacements (map literal STORE_REPLACEMENTS) st2))"

section \<open>Files, console and directory trees\<close>

text \<open>
  The part of the file system the script sees.  \<open>files\<close> gives, for a path, the file
  that \<open>open\<close> finds there: its content as the text that \<open>f.read()\<close> returns
  (\<open>None\<close> when the bytes are not valid UTF-8) and whether it may be opened for
  reading and for writing.  \<open>tree\<close> gives the directory structure found at a path
  (\<open>None\<close>: nothing exists there).  \<open>trace\<close> records every call that reaches the file
  system, \<open>out\<close> every line printed.  \<open>stdout_encodes\<close> tells which code points the
  encoding of \<open>sys.stdout\<close> can encode.
\<close>

record fentry =
  data :: "pystr option"
  readable :: bool
  writable :: bool

datatype node = File pystr | Dir pystr "node list"

datatype event = EvExists pystr | EvWalk pystr | EvRead pystr | EvWrite pystr pystr

text \<open>
  The printed lines.  \<open>Line\<close> is a line of fixed text; the other constructors stand for
  the f-strings of the source, with the values they interpolate:
  \<open>Updated p\<close> for \<open>"\<dots> Updated: {file_path}"\<close>, \<open>Change c\<close> for one element of
  \<open>changes_made\<close>, \<open>ErrorProcessing p e\<close> for \<open>"\<dots> Error processing {file_path}: {e}"\<close>,
  \<open>NotFound p\<close> for \<open>"Error: Source directory not found: {src_dir}"\<close>,
  \<open>Scanning p\<close> for \<open>"Scanning: {src_dir}"\<close>, \<open>Found n\<close> for
  \<open>"Found {len(rust_files)} Rust files"\<close> and \<open>Summary u n\<close> for
  \<open>"Updated {updated_count} out of {len(rust_files)} files"\<close>.  \<open>line_text\<close> is the text of
  a line.  The message \<open>{e}\<close> of an exception depends on the operating system and on
  the file; the name of the class of the exception takes its place.
\<close>

datatype printed =
    Line string
  | Updated pystr
  | Change pystr
  | ErrorProcessing pystr error
  | NotFound pystr
  | Scanning pystr
  | Found nat
  | Summary nat nat

function decimal :: "nat \<Rightarrow> pystr" where
  "decimal n = (if n < 10 then [48 + n] else decimal (n div 10) @ [48 + n mod 10])"
  by pat_completeness auto
termination
  by (relation "measure (\<lambda>n. n)") auto

declare decimal.simps [simp del]

fun error_message :: "error \<Rightarrow> pystr" where
  "error_message FileNotFoundError = str ''FileNotFoundError''"
| "error_message PermissionError = str ''PermissionError''"
| "error_message UnicodeDecodeError = str ''UnicodeDecodeError''"
| "error_message UnicodeEncodeError = str ''UnicodeEncodeError''"
| "error_message ReError = str ''error''"

fun line_text :: "printed \<Rightarrow> pystr" where
  "line_text (Line s) = str s"
| "line_text (Updated p) = 10003 # str '' Updated: '' @ p"
| "line_text (Change c) = c"
| "line_text (ErrorProcessing p e) =
     10007 # str '' Error processing '' @ p @ str '': '' @ error_message e"
| "line_text (NotFound p) = str ''Error: Source directory not found: '' @ p"
| "line_text (Scanning p) = str ''Scanning: '' @ p"
| "line_text (Found n) = str ''Found '' @ decimal n @ str '' Rust files''"
| "line_text (Summary u n) =
     str ''Updated '' @ decimal u @ str '' out of '' @ decimal n @ str '' files''"

record world =
  files :: "pystr \<rightharpoonup> fentry"
  tree :: "pystr \<rightharpoonup> node"
  trace :: "event list"
  out :: "printed list"
  stdout_encodes :: "codepoint \<Rightarrow> bool"

text \<open>
  \<open>print(\<dots>)\<close>: \<open>sys.stdout\<close> encodes the text of the line; a code point that it cannot
  encode raises \<open>UnicodeEncodeError\<close>, and then nothing of the line is written.
  \<open>print ls\<close> is the sequence of the calls for the lines \<open>ls\<close>, which the first exception
  leaves; \<open>emit ls\<close> is the state after calls that all succeed.
\<close>

definition emit :: "printed list \<Rightarrow> world \<Rightarrow> world" where
  "emit ls w = w\<lparr>out := out w @ ls\<rparr>"

definition can_print :: "world \<Rightarrow> printed \<Rightarrow> bool" where
  "can_print w l \<longleftrightarrow> list_all (stdout_encodes w) (line_text l)"

fun print :: "printed list \<Rightarrow> world \<Rightarrow> error option \<times> world" where
  "print [] w = (None, w)"
| "print (l # ls) w =
    (if can_print w l then print ls (emit [l] w) else (Some UnicodeEncodeError, w))"

definition log_event :: "event \<Rightarrow> world \<Rightarrow> world" where
  "log_event ev w = w\<lparr>trace := trace w @ [ev]\<rparr>"

text \<open>\<open>with open(file_path, "r", encoding="utf-8") as f: content = f.read()\<close>\<close>

definition read_file :: "pystr \<Rightarrow> world \<Rightarrow> (error + pystr) \<times> world" where
  "read_file file_path w =
    (let w' = log_event (EvRead file_path) w in
     case files w file_path of
       None \<Rightarrow> (Inl FileNotFoundError, w')
     | Some e \<Rightarrow>
         if \<not> readable e then (Inl PermissionError, w')
         else (case data e of
                 None \<Rightarrow> (Inl UnicodeDecodeError, w')
               | Some content \<Rightarrow> (Inr content, w')))"

text \<open>
  \<open>with open(file_path, "w", encoding="utf-8") as f: f.write(content)\<close>.
  Mode \<open>"w"\<close> creates a file that does not exist and replaces the whole content of one
  that does.
\<close>

definition write_file :: "pystr \<Rightarrow> pystr \<Rightarrow> world \<Rightarrow> error option \<times> world" where
  "write_file file_path content w =
    (let w' = log_event (EvWrite file_path content) w in
     case files w file_path of
       None \<Rightarrow>
         (None, w'\<lparr>files := (files w)(file_path \<mapsto>
                   \<lparr>data = Some content, readable = True, writable = True\<rparr>)\<rparr>)
     | Some e \<Rightarrow>
         if \<not> writable e then (Some PermissionError, w')
         else (None, w'\<lparr>files := (files w)(file_path \<mapsto> e\<lparr>data := Some content\<rparr>)\<rparr>))"

section \<open>\<open>process_file\<close>\<close>

text \<open>
  The body of the \<open>try\<close> block: \<open>Inl e\<close> is an exception that leaves it, raised by
  \<open>open\<close>, \<open>read\<close>, \<open>re\<close>, \<open>write\<close> or \<open>print\<close>.
\<close>

definition process_file_try :: "pystr \<Rightarrow> world \<Rightarrow> (error + bool) \<times> world" where
  "process_file_try file_path w =
    (case read_file file_path w of
       (Inl e, w1) \<Rightarrow> (Inl e, w1)
     | (Inr original_content, w1) \<Rightarrow>
        (case substitute original_content of
           Inl e \<Rightarrow> (Inl e, w1)
         | Inr (content, changes_made) \<Rightarrow>
             if content \<noteq> original_content then
               (case write_file file_path content w1 of
                  (Some e, w2) \<Rightarrow> (Inl e, w2)
                | (None, w2) \<Rightarrow>
                    (case print (Updated file_path # map Change changes_made) w2 of
                       (Some e, w3) \<Rightarrow> (Inl e, w3)
                     | (None, w3) \<Rightarrow> (Inr True, w3)))
             else (Inr False, w1)))"

text \<open>
  \<open>except Exception as e: print(\<dots>); return False\<close>.  The \<open>print\<close> of the handler is
  outside every \<open>try\<close>: an exception that it raises leaves \<open>process_file\<close>
  (result \<open>Inl\<close>).
\<close>

definition process_file :: "pystr \<Rightarrow> world \<Rightarrow> (error + bool) \<times> world" where
  "process_file file_path w =
    (case process_file_try file_path w of
       (Inl e, w') \<Rightarrow>
         (case print [ErrorProcessing file_path e] w' of
            (Some e', w'') \<Rightarrow> (Inl e', w'')
          | (None, w'') \<Rightarrow> (Inr False, w''))
     | (Inr changed, w') \<Rightarrow> (Inr changed, w'))"

section \<open>\<open>find_rust_files\<close>\<close>

definition startswith :: "pystr \<Rightarrow> pystr \<Rightarrow> bool" where
  "startswith s p = prefix p s"

definition endswith :: "pystr \<Rightarrow> pystr \<Rightarrow> bool" where
  "endswith s p = suffix p s"

text \<open>\<open>os.path.join\<close> of two components, on POSIX.\<close>

definition path_join :: "pystr \<Rightarrow> pystr \<Rightarrow> pystr" where
  "path_join a b =
    (if startswith b (str ''/'') then b
     else if a = [] \<or> endswith a (str ''/'') then a @ b
     else a @ str ''/'' @ b)"

fun node_name :: "node \<Rightarrow> pystr" where
  "node_name (File n) = n"
| "node_name (Dir n _) = n"

fun is_dir :: "node \<Rightarrow> bool" where
  "is_dir (File _) = False"
| "is_dir (Dir _ _) = True"

text \<open>
  \<open>os.walk(top)\<close>, top-down: it yields \<open>(top, dirs, files)\<close> for the directory, then
  walks into the directories that are left in \<open>dirs\<close> when the consumer gives control
  back.  The consumer of the source filters \<open>dirs\<close> in place; \<open>keep\<close> is that filter.
\<close>

fun os_walk :: "(pystr \<Rightarrow> bool) \<Rightarrow> pystr \<Rightarrow> node \<Rightarrow> (pystr \<times> pystr list \<times> pystr list) list" where
  "os_walk keep top_dir (File _) = []"
| "os_walk keep top_dir (Dir _ entries) =
    (top_dir, map node_name (filter is_dir entries),
          map node_name (filter (\<lambda>n. \<not> is_dir n) entries))
    # concat (map (\<lambda>n. if is_dir n \<and> keep (node_name n)
                         then os_walk keep (path_join top_dir (node_name n)) n else [])
                  entries)"

definition keep_dir :: "pystr \<Rightarrow> bool" where
  "keep_dir d \<longleftrightarrow> \<not> startswith d (str ''.'') \<and> d \<noteq> str ''target''"

definition is_rust_file :: "pystr \<Rightarrow> bool" where
  "is_rust_file file \<longleftrightarrow> endswith file (str ''.rs'') \<and> \<not> startswith file (str ''.'')"

definition find_rust_files :: "pystr \<Rightarrow> world \<Rightarrow> pystr list" where
  "find_rust_files root_dir w =
    (case tree w root_dir of
       None \<Rightarrow> []
     | Some n \<Rightarrow>
         concat (map (\<lambda>(root, dirs, files). map (path_join root) (filter is_rust_file files))
                     (os_walk keep_dir root_dir n)))"

section \<open>\<open>main\<close>\<close>

text \<open>
  The source directory: \<open>script_dir / "admin-dioxus" / "src"\<close>, where \<open>script_dir\<close> is
  the directory of the script; \<open>path_join\<close> stands for the \<open>/\<close> of \<open>pathlib\<close> too.
\<close>

definition src_dir_of :: "pystr \<Rightarrow> pystr" where
  "src_dir_of script_dir = path_join (path_join script_dir (str ''admin-dioxus'')) (str ''src'')"

text \<open>
  The loop \<open>for file_path in rust_files\<close> with its counter.  The loop has no \<open>try\<close>: an
  exception that leaves \<open>process_file\<close> or \<open>print\<close> leaves the loop.
\<close>

fun process_files :: "pystr list \<Rightarrow> nat \<times> world \<Rightarrow> (error + nat) \<times> world" where
  "process_files [] (updated_count, w) = (Inr updated_count, w)"
| "process_files (file_path # rest) (updated_count, w) =
    (case process_file file_path w of
       (Inl e, w') \<Rightarrow> (Inl e, w')
     | (Inr True, w') \<Rightarrow>
         (case print [Line []] w' of
            (Some e, w'') \<Rightarrow> (Inl e, w'')
          | (None, w'') \<Rightarrow> process_files rest (updated_count + 1, w''))
     | (Inr False, w') \<Rightarrow> process_files rest (updated_count, w'))"

text \<open>\<open>main\<close>: \<open>Some e\<close> is an exception that leaves it, \<open>None\<close> a normal return.\<close>

definition banner :: string where
  "banner = replicate 60 (CHR ''='')"

definition main :: "pystr \<Rightarrow> world \<Rightarrow> error option \<times> world" where
  "main script_dir w =
    (let src_dir = src_dir_of script_dir;
         w0 = log_event (EvExists src_dir) w
     in if tree w0 src_dir = None then print [NotFound src_dir] w0
        else
          (case print [Line banner, Line ''Starting Import Migration'', Line banner,
                       Scanning src_dir, Line []] w0 of
             (Some e, w1) \<Rightarrow> (Some e, w1)
           | (None, w1) \<Rightarrow>
              (let rust_files = find_rust_files src_dir w1 in
               case print [Found (length rust_files), Line []]
                          (log_event (EvWalk src_dir) w1) of
                 (Some e, w2) \<Rightarrow> (Some e, w2)
               | (None, w2) \<Rightarrow>
                  (case process_files rust_files (0, w2) of
                     (Inl e, w3) \<Rightarrow> (Some e, w3)
                   | (Inr updated_count, w3) \<Rightarrow>
                       print [Line banner, Line ''Migration Complete!'',
                              Summary updated_count (length rust_files), Line banner, Line [],
                              Line ''Next steps:'', Line ''1. Delete old directories:'',
                              Line ''   rm -rf frontend/admin-dioxus/src/ui'',
                              Line ''   rm -rf frontend/admin-dioxus/src/store'', Line [],
                              Line ''2. Run cargo check:'',
                              Line ''   cd frontend/admin-dioxus && cargo check'',
                              Line []] w3))))"

section \<open>Notions of the specification\<close>

subsection \<open>The Rule Set and its application\<close>

text \<open>
  The Rule Set of the specification: every rule of the three tables, in order.  A rule
  is applied by replacing every occurrence of its pattern; \<open>fired_rules\<close> lists the
  rules that fire, those whose pattern occurs when their turn comes, and \<open>rule_line\<close>
  is the line that \<open>changes_made\<close> gets for a rule.
\<close>

definition RULE_SET :: "(pystr \<times> pystr) list" where
  "RULE_SET = map literal (UI_REPLACEMENTS @ DOMAIN_REPLACEMENTS @ STORE_REPLACEMENTS)"

definition apply_rule :: "pystr \<times> pystr \<Rightarrow> pystr \<Rightarrow> pystr" where
  "apply_rule rule content = replace_all (fst rule) (snd rule) content"

definition apply_rules :: "(pystr \<times> pystr) list \<Rightarrow> pystr \<Rightarrow> pystr" where
  "apply_rules rules content = foldl (\<lambda>c rule. apply_rule rule c) content rules"

fun fired_rules :: "(pystr \<times> pystr) list \<Rightarrow> pystr \<Rightarrow> (pystr \<times> pystr) list" where
  "fired_rules [] content = []"
| "fired_rules (rule # rest) content =
    (if sublist (fst rule) content then rule # fired_rules rest (apply_rule rule content)
     else fired_rules rest content)"

definition rule_line :: "pystr \<times> pystr \<Rightarrow> pystr" where
  "rule_line rule = change_line (fst rule) (snd rule)"

subsection \<open>Patterns and templates without special characters\<close>

definition literal_pattern :: "pystr \<Rightarrow> bool" where
  "literal_pattern p \<longleftrightarrow> list_all (\<lambda>c. c \<notin> set special_chars) p"

definition literal_template :: "pystr \<Rightarrow> bool" where
  "literal_template r \<longleftrightarrow> list_all (\<lambda>c. c \<noteq> backslash) r"

definition literal_rule :: "pystr \<times> pystr \<Rightarrow> bool" where
  "literal_rule rule \<longleftrightarrow> literal_pattern (fst rule) \<and> literal_template (snd rule)"

text \<open>The compiled form of a pattern without special characters.\<close>

definition lits :: "pystr \<Rightarrow> item list" where
  "lits p = map (\<lambda>c. (Lit c, One)) p"

subsection \<open>Counting occurrences\<close>

text \<open>
  \<open>count_occ q s\<close>: the number of positions of \<open>s\<close> at which \<open>q\<close> occurs;
  \<open>replace_count old s\<close>: the number of occurrences that \<open>replace_all old new s\<close> replaces.
\<close>

fun count_occ :: "pystr \<Rightarrow> pystr \<Rightarrow> nat" where
  "count_occ q [] = (if q = [] then 1 else 0)"
| "count_occ q (c # cs) = (if prefix q (c # cs) then 1 else 0) + count_occ q cs"

function replace_count :: "pystr \<Rightarrow> pystr \<Rightarrow> nat" where
  "replace_count old [] = (if old = [] then 1 else 0)"
| "replace_count old (c # cs) =
    (if old = [] then 1 + replace_count old cs
     else if prefix old (c # cs) then 1 + replace_count old (drop (length old) (c # cs))
     else replace_count old cs)"
  by pat_completeness auto
termination
  by (relation "measure (\<lambda>(old, s). length s)") auto

subsection \<open>Rules that do not interfere\<close>

text \<open>
  Two texts clash when one is a prefix of the other.  \<open>clash_free xs q\<close>: no non-empty
  suffix of \<open>xs\<close> clashes with \<open>q\<close>; then an occurrence of \<open>q\<close> cannot start inside
  a copy of \<open>xs\<close>.  \<open>no_overlap xs q\<close>: a copy of \<open>xs\<close> and an occurrence of \<open>q\<close> never
  share a position.
\<close>

definition clash :: "'a list \<Rightarrow> 'a list \<Rightarrow> bool" where
  "clash xs ys \<longleftrightarrow> prefix xs ys \<or> prefix ys xs"

fun clash_free :: "'a list \<Rightarrow> 'a list \<Rightarrow> bool" where
  "clash_free [] q = True"
| "clash_free (x # xs) q = (\<not> clash (x # xs) q \<and> clash_free xs q)"

definition no_overlap :: "'a list \<Rightarrow> 'a list \<Rightarrow> bool" where
  "no_overlap xs q \<longleftrightarrow> clash_free xs q \<and> clash_free q xs"

text \<open>
  Independent rules: the patterns are distinct and non-empty, no pattern overlaps
  itself, no replacement shares a position with an occurrence of any pattern, and
  occurrences of two different patterns never share a position.
\<close>

definition independent :: "('a list \<times> 'a list) list \<Rightarrow> bool" where
  "independent rules \<longleftrightarrow>
     distinct (map fst rules) \<and>
     list_all (\<lambda>rule. fst rule \<noteq> [] \<and> clash_free (tl (fst rule)) (fst rule) \<and>
                list_all (\<lambda>other. no_overlap (snd rule) (fst other) \<and>
                                   (fst other = fst rule \<or> no_overlap (fst rule) (fst other)))
                         rules)
              rules"

text \<open>
  A check of \<open>independent\<close> that looks at the first characters only: every pattern
  starts with one of \<open>pheads\<close> and every replacement with one of \<open>rheads\<close>.
\<close>

definition heads_ok :: "'a list list \<Rightarrow> 'a list list \<Rightarrow> ('a list \<times> 'a list) list \<Rightarrow> bool" where
  "heads_ok pheads rheads rules \<longleftrightarrow>
     distinct (map fst rules) \<and>
     list_all (\<lambda>rule.
        fst rule \<noteq> [] \<and>
        list_ex (\<lambda>h. prefix h (fst rule)) pheads \<and>
        list_ex (\<lambda>g. prefix g (snd rule)) rheads \<and>
        list_all (\<lambda>h. clash_free (snd rule) h \<and> clash_free (tl (fst rule)) h) pheads \<and>
        list_all (\<lambda>g. clash_free (fst rule) g) rheads \<and>
        list_all (\<lambda>other. fst other = fst rule \<or> \<not> clash (fst rule) (fst other)) rules)
      rules"

subsection \<open>Traces\<close>

text \<open>The paths of the files opened for reading and the writes, in a trace.\<close>

fun reads :: "event list \<Rightarrow> pystr list" where
  "reads [] = []"
| "reads (EvRead p # evs) = p # reads evs"
| "reads (_ # evs) = reads evs"

fun writes :: "event list \<Rightarrow> (pystr \<times> pystr) list" where
  "writes [] = []"
| "writes (EvWrite p c # evs) = (p, c) # writes evs"
| "writes (_ # evs) = writes evs"

subsection \<open>The files of a directory tree\<close>

text \<open>
  Every file of a directory tree, as the pair of the names of the directories that lead
  from the root down to it and its own name, files of a directory before those of its
  subdirectories; the path of such a file below \<open>root_dir\<close>; and the condition of the
  specification for a candidate.
\<close>

fun tree_files :: "node \<Rightarrow> (pystr list \<times> pystr) list" where
  "tree_files (File _) = []"
| "tree_files (Dir _ entries) =
    map (\<lambda>n. ([], node_name n)) (filter (\<lambda>n. \<not> is_dir n) entries)
    @ concat (map (\<lambda>n. if is_dir n
                         then map (\<lambda>(ds, f). (node_name n # ds, f)) (tree_files n) else [])
                  entries)"

definition path_below :: "pystr \<Rightarrow> pystr list \<times> pystr \<Rightarrow> pystr" where
  "path_below root_dir file = foldl path_join root_dir (fst file @ [snd file])"

definition candidate :: "pystr list \<times> pystr \<Rightarrow> bool" where
  "candidate file \<longleftrightarrow> is_rust_file (snd file) \<and> list_all keep_dir (fst file)"

text \<open>
  What the loop of \<open>find_rust_files\<close> appends to \<open>rust_files\<close> during the walk of one
  directory tree.
\<close>

definition collect :: "pystr \<Rightarrow> node \<Rightarrow> pystr list" where
  "collect top_dir n =
     concat (map (\<lambda>(root, dirs, files). map (path_join root) (filter is_rust_file files))
                 (os_walk keep_dir top_dir n))"

section \<open>Example inputs\<close>

definition ex_rule :: "pystr \<times> pystr" where
  "ex_rule = (str ''use crate::store::'', str ''use ruxlog_shared::store::'')"

definition ex_content :: pystr where
  "ex_content = str ''use crate::store::auth;''"

definition ex_migrated :: pystr where
  "ex_migrated = str ''use ruxlog_shared::store::auth;''"

definition ex_plain :: pystr where
  "ex_plain = str ''fn main() {}''"

definition ex_three :: pystr where
  "ex_three = str ''use crate::store::a;'' @ [newline] @ str ''use crate::store::b;''
              @ [newline] @ str ''use crate::store::c;''"

definition ex_three_migrated :: pystr where
  "ex_three_migrated =
     str ''use ruxlog_shared::store::a;'' @ [newline] @ str ''use ruxlog_shared::store::b;''
     @ [newline] @ str ''use ruxlog_shared::store::c;''"

definition plain_file :: "pystr \<Rightarrow> fentry" where
  "plain_file content = \<lparr>data = Some content, readable = True, writable = True\<rparr>"

definition ex_path :: pystr where
  "ex_path = str ''src/main.rs''"

text \<open>
  A file name with a byte that is not UTF-8: \<open>os.walk\<close> gives it with the lone surrogate
  \<open>U+DCFF\<close> in place of that byte.
\<close>

definition ex_bad_path :: pystr where
  "ex_bad_path = str ''src/bad'' @ [56575] @ str ''.rs''"

text \<open>A standard output with the encoding UTF-8: every code point but the surrogates.\<close>

definition utf8_strict :: "codepoint \<Rightarrow> bool" where
  "utf8_strict c \<longleftrightarrow> c \<le> 1114111 \<and> \<not> (55296 \<le> c \<and> c \<le> 57343)"

definition ex_world :: world where
  "ex_world = \<lparr>files = [ex_path \<mapsto> plain_file ex_content], tree = Map.empty,
               trace = [], out = [], stdout_encodes = utf8_strict\<rparr>"

definition ex_world_plain :: world where
  "ex_world_plain = \<lparr>files = [ex_path \<mapsto> plain_file ex_plain], tree = Map.empty,
                     trace = [], out = [], stdout_encodes = utf8_strict\<rparr>"

text \<open>A second file, with that name, whose bytes are not valid UTF-8 either.\<close>

definition ex_world_bad :: world where
  "ex_world_bad =
    \<lparr>files = [ex_path \<mapsto> plain_file ex_content,
               ex_bad_path \<mapsto> \<lparr>data = None, readable = True, writable = True\<rparr>],
     tree = Map.empty, trace = [], out = [], stdout_encodes = utf8_strict\<rparr>"

definition ex_tree :: node where
  "ex_tree =
    Dir (str ''src'')
      [File (str ''main.rs''), File (str ''.hidden.rs''), File (str ''notes.txt''),
       Dir (str ''target'') [File (str ''gen.rs'')],
       Dir (str ''.git'') [File (str ''hook.rs'')],
       Dir (str ''ui'') [File (str ''mod.rs''), Dir (str ''target'') [File (str ''out.rs'')]]]"

definition ex_world_tree :: world where
  "ex_world_tree = \<lparr>files = Map.empty, tree = [str ''src'' \<mapsto> ex_tree], trace = [], out = [],
                    stdout_encodes = utf8_strict\<rparr>"

section \<open>Regular expressions without special characters\<close>

lemma token_of_literal: "c \<notin> set special_chars \<Longrightarrow> token_of c = TAtom (Lit c)"
  by (auto simp: token_of_def special_chars_def str_def)

lemma tokenize_literal:
  "literal_pattern p \<Longrightarrow> tokenize p = map (\<lambda>c. TAtom (Lit c)) p"
proof (induction p rule: tokenize.induct)
  case 1
  then show ?case by simp
next
  case (2 c)
  then have "c \<notin> set special_chars" by (simp add: literal_pattern_def)
  then show ?case by (auto simp: token_of_literal special_chars_def)
next
  case (3 c d cs)
  from "3.prems" have c: "c \<notin> set special_chars" and rest: "literal_pattern (d # cs)"
    by (simp_all add: literal_pattern_def)
  from c have "c \<noteq> backslash" by (auto simp: special_chars_def)
  with "3.IH"(2) rest c show ?case by (simp add: token_of_literal)
qed

lemma build_literal: "build (map (\<lambda>c. TAtom (Lit c)) p) = Inr (lits p)"
  by (induction p rule: induct_list012) (simp_all add: lits_def)

lemma re_compile_literal: "literal_pattern p \<Longrightarrow> re_compile p = Inr (lits p)"
  by (simp add: re_compile_def tokenize_literal build_literal)

lemma match_here_lits:
  "match_here (lits p) s = (if prefix p s then [drop (length p) s] else [])"
proof (induction p arbitrary: s)
  case Nil
  then show ?case by (simp add: lits_def)
next
  case (Cons c p)
  then show ?case by (cases s) (auto simp: lits_def)
qed

lemma first_match_lits:
  "first_match (lits p) adv s =
    (if prefix p s \<and> \<not> (adv \<and> p = []) then Some (drop (length p) s) else None)"
proof -
  have "p = []" if "prefix p s" "length s - length p = length s"
  proof -
    from that(1) have "length p \<le> length s" by (rule prefix_length_le)
    with that(2) have "length p = 0 \<or> length s = 0" by arith
    with that(1) show ?thesis by auto
  qed
  then show ?thesis by (auto simp: first_match_def match_here_lits)
qed

lemma search_from_lits: "search_from (lits p) s = sublist p s"
  by (induction s) (auto simp: first_match_lits sublist_Cons_right)

lemma expand_template_literal: "literal_template r \<Longrightarrow> expand_template r = Inr r"
  by (induction r rule: expand_template.induct) (auto simp: literal_template_def)

lemma sub_scan_lits: "sub_scan (lits p) r False s = replace_all p r s"
proof (induction p r s rule: replace_all.induct)
  case (1 old new)
  show ?case
    by (simp add: sub_scan.simps [of _ _ _ "[]"] first_match_lits)
next
  case (2 old new c cs)
  show ?case
  proof (cases "old = []")
    case True
    with 2 show ?thesis
      by (simp add: sub_scan.simps [of _ _ _ "c # cs"] first_match_lits)
  next
    case False
    note ne = this
    show ?thesis
    proof (cases "prefix old (c # cs)")
      case True
      with ne have "length (drop (length old) (c # cs)) < length (c # cs)" by simp
      with 2(2) ne True show ?thesis
        by (simp add: sub_scan.simps [of _ _ False "c # cs"] first_match_lits)
    next
      case False
      with 2(3) ne show ?thesis
        by (simp add: sub_scan.simps [of _ _ False "c # cs"] first_match_lits)
    qed
  qed
qed

lemma re_search_literal: "literal_pattern p \<Longrightarrow> re_search p s = Inr (sublist p s)"
  by (simp add: re_search_def re_compile_literal search_from_lits)

lemma re_sub_literal:
  "literal_pattern p \<Longrightarrow> literal_template r \<Longrightarrow> re_sub p r s = Inr (replace_all p r s)"
  by (simp add: re_sub_def re_compile_literal expand_template_literal sub_scan_lits)

lemma replace_all_no_occ: "\<not> sublist p s \<Longrightarrow> replace_all p r s = s"
proof (induction p r s rule: replace_all.induct)
  case (1 old new)
  then show ?case by auto
next
  case (2 old new c cs)
  from "2.prems" have ne: "old \<noteq> []" by auto
  from "2.prems" have np: "\<not> prefix old (c # cs)" and ns: "\<not> sublist old cs"
    by (auto simp: sublist_Cons_right)
  with ne "2.IH"(3) show ?case by simp
qed

lemma apply_replacements_append:
  "apply_replacements (xs @ ys) st =
    (case apply_replacements xs st of Inl e \<Rightarrow> Inl e | Inr st' \<Rightarrow> apply_replacements ys st')"
proof (induction xs st rule: apply_replacements.induct)
  case (1 st)
  then show ?case by simp
next
  case (2 old_pattern new_pattern rest content changes_made)
  then show ?case by (simp split: sum.splits)
qed

lemma substitute_eq: "substitute c = apply_replacements RULE_SET (c, [])"
  by (simp add: substitute_def RULE_SET_def apply_replacements_append split: sum.splits)

lemma apply_replacements_literal:
  "list_all literal_rule rules \<Longrightarrow>
   apply_replacements rules (c, ch) =
     Inr (apply_rules rules c, ch @ map rule_line (fired_rules rules c))"
proof (induction rules arbitrary: c ch)
  case Nil
  then show ?case by (simp add: apply_rules_def)
next
  case (Cons rule rules)
  obtain p r where rule: "rule = (p, r)" by (cases rule)
  from Cons.prems have lrule: "literal_rule rule" and rest: "list_all literal_rule rules"
    by simp_all
  from lrule rule have lp: "literal_pattern p" and lr: "literal_template r"
    by (simp_all add: literal_rule_def)
  show ?case
  proof (cases "sublist p c")
    case True
    with lp lr Cons.IH [OF rest] rule show ?thesis
      by (simp add: re_search_literal re_sub_literal apply_rules_def apply_rule_def rule_line_def)
  next
    case False
    with lp lr Cons.IH [OF rest] rule show ?thesis
      by (simp add: re_search_literal apply_rules_def apply_rule_def replace_all_no_occ)
  qed
qed

lemma rules_literal: "list_all literal_rule RULE_SET"
  by (simp add: RULE_SET_def UI_REPLACEMENTS_def literal_def DOMAIN_REPLACEMENTS_def STORE_REPLACEMENTS_def
      literal_rule_def literal_pattern_def literal_template_def special_chars_def backslash_def str_def)

lemma substitute_literal:
  "substitute c = Inr (apply_rules RULE_SET c, map rule_line (fired_rules RULE_SET c))"
  using apply_replacements_literal [OF rules_literal, of c "[]"] by (simp add: substitute_eq)

text \<open>
  C10: no pattern of the rule tables contains a special character of \<open>re\<close> and no
  replacement contains a backslash; so, for every content, \<open>re.search\<close> with a pattern
  of the tables is plain substring search, \<open>re.sub\<close> with a rule of the tables is plain
  replacement of every occurrence, and the three loops of \<open>process_file\<close> compute what
  literal search and replacement with the same pairs compute.
\<close>

theorem regex_is_literal_on_table:
  "rule \<in> set RULE_SET \<Longrightarrow>
     literal_pattern (fst rule) \<and> literal_template (snd rule) \<and>
     re_search (fst rule) content = Inr (sublist (fst rule) content) \<and>
     re_sub (fst rule) (snd rule) content = Inr (replace_all (fst rule) (snd rule) content) \<and>
     substitute content =
       Inr (apply_rules RULE_SET content, map rule_line (fired_rules RULE_SET content))"
proof -
  assume "rule \<in> set RULE_SET"
  with rules_literal have "literal_rule rule" by (simp add: list_all_iff)
  then show ?thesis
    by (simp add: literal_rule_def re_search_literal re_sub_literal substitute_literal)
qed

lemma ex_rule_in: "ex_rule \<in> set RULE_SET"
  by (simp add: ex_rule_def RULE_SET_def STORE_REPLACEMENTS_def literal_def)

theorem regex_is_literal_on_table_witness:
  "ex_rule \<in> set RULE_SET \<and>
   re_search (fst ex_rule) ex_content = Inr True \<and>
   re_sub (fst ex_rule) (snd ex_rule) ex_content = Inr (str ''use ruxlog_shared::store::auth;'')"
proof -
  have a: "sublist (fst ex_rule) ex_content"
    by (simp add: ex_rule_def ex_content_def str_def sublist_code)
  have b: "replace_all (fst ex_rule) (snd ex_rule) ex_content = str ''use ruxlog_shared::store::auth;''"
    by (simp add: ex_rule_def ex_content_def str_def)
  from regex_is_literal_on_table [OF ex_rule_in, of ex_content] a b ex_rule_in
  show ?thesis by simp
qed

section \<open>Reading, writing and printing\<close>

lemma snd_read_file: "snd (read_file p w) = log_event (EvRead p) w"
  by (simp add: read_file_def Let_def split: option.splits)

lemma read_file_Inr:
  "fst (read_file p w) = Inr c \<Longrightarrow> read_file p w = (Inr c, log_event (EvRead p) w)"
  using snd_read_file [of p w] by (cases "read_file p w") simp

lemma read_file_Inr_entry:
  "fst (read_file p w) = Inr c \<Longrightarrow> \<exists>e. files w p = Some e \<and> readable e \<and> data e = Some c"
  by (auto simp: read_file_def Let_def split: option.splits if_splits)

lemma read_file_Inl:
  "fst (read_file p w) = Inl e \<Longrightarrow> read_file p w = (Inl e, log_event (EvRead p) w)"
  using snd_read_file [of p w] by (cases "read_file p w") simp

lemma files_log_event [simp]: "files (log_event ev w) = files w"
  and tree_log_event [simp]: "tree (log_event ev w) = tree w"
  and out_log_event [simp]: "out (log_event ev w) = out w"
  and trace_log_event [simp]: "trace (log_event ev w) = trace w @ [ev]"
  and stdout_log_event [simp]: "stdout_encodes (log_event ev w) = stdout_encodes w"
  by (simp_all add: log_event_def)

lemma files_emit [simp]: "files (emit ls w) = files w"
  and tree_emit [simp]: "tree (emit ls w) = tree w"
  and out_emit [simp]: "out (emit ls w) = out w @ ls"
  and trace_emit [simp]: "trace (emit ls w) = trace w"
  and stdout_emit [simp]: "stdout_encodes (emit ls w) = stdout_encodes w"
  by (simp_all add: emit_def)

lemma emit_Nil [simp]: "emit [] w = w"
  by (simp add: emit_def)

lemma emit_emit [simp]: "emit ys (emit xs w) = emit (xs @ ys) w"
  by (simp add: emit_def)

lemma can_print_emit [simp]: "can_print (emit ls w) = can_print w"
  by (simp add: fun_eq_iff can_print_def)

lemma can_print_log_event [simp]: "can_print (log_event ev w) = can_print w"
  by (simp add: fun_eq_iff can_print_def)

lemma can_print_files_update [simp]: "can_print (w\<lparr>files := fs\<rparr>) = can_print w"
  by (simp add: fun_eq_iff can_print_def)

lemma can_print_trace_update [simp]: "can_print (w\<lparr>trace := t\<rparr>) = can_print w"
  by (simp add: fun_eq_iff can_print_def)

text \<open>The lines before the first one that cannot be encoded are printed.\<close>

lemma print_result:
  "print ls w =
     (if list_all (can_print w) ls then None else Some UnicodeEncodeError,
      emit (takeWhile (can_print w) ls) w)"
  by (induction ls arbitrary: w) simp_all

lemma print_ok: "list_all (can_print w) ls \<Longrightarrow> print ls w = (None, emit ls w)"
  by (simp add: print_result takeWhile_eq_all_conv list_all_iff)

lemma print_blank [simp]: "print [Line []] w = (None, emit [Line []] w)"
  by (simp add: can_print_def str_def)

lemma files_print [simp]: "files (snd (print ls w)) = files w"
  and tree_print [simp]: "tree (snd (print ls w)) = tree w"
  and trace_print [simp]: "trace (snd (print ls w)) = trace w"
  and stdout_print [simp]: "stdout_encodes (snd (print ls w)) = stdout_encodes w"
  by (simp_all add: print_result)

lemma print_frame:
  assumes "print ls w = (r, w')"
  shows "files w' = files w" and "tree w' = tree w" and "trace w' = trace w"
  using assms files_print [of ls w] tree_print [of ls w] trace_print [of ls w] by simp_all

text \<open>What \<open>process_file_try\<close> does once the file has been read.\<close>

lemma process_file_try_read:
  assumes "fst (read_file p w) = Inr c"
  shows "process_file_try p w =
     (let content = apply_rules RULE_SET c; w1 = log_event (EvRead p) w in
      if content \<noteq> c then
        (case write_file p content w1 of
           (Some e, w2) \<Rightarrow> (Inl e, w2)
         | (None, w2) \<Rightarrow>
            (case print (Updated p # map Change (map rule_line (fired_rules RULE_SET c))) w2 of
               (Some e, w3) \<Rightarrow> (Inl e, w3)
             | (None, w3) \<Rightarrow> (Inr True, w3)))
      else (Inr False, w1))"
  by (simp add: process_file_try_def read_file_Inr [OF assms] substitute_literal Let_def)

lemma process_file_try_unread:
  assumes "fst (read_file p w) = Inl e"
  shows "process_file_try p w = (Inl e, log_event (EvRead p) w)"
  by (simp add: process_file_try_def read_file_Inl [OF assms])

lemma write_file_cases:
  assumes "files w p = Some e"
  shows "write_file p c w =
     (if writable e then (None, (log_event (EvWrite p c) w)\<lparr>files := (files w)(p \<mapsto> e\<lparr>data := Some c\<rparr>)\<rparr>)
      else (Some PermissionError, log_event (EvWrite p c) w))"
  using assms by (simp add: write_file_def Let_def)

text \<open>The state after the \<open>try\<close> block, case by case.\<close>

lemma process_file_try_cases:
  "(\<exists>e. fst (read_file p w) = Inl e \<and>
        process_file_try p w = (Inl e, log_event (EvRead p) w)) \<or>
   (\<exists>c. fst (read_file p w) = Inr c \<and> apply_rules RULE_SET c = c \<and>
        process_file_try p w = (Inr False, log_event (EvRead p) w)) \<or>
   (\<exists>c e. fst (read_file p w) = Inr c \<and> apply_rules RULE_SET c \<noteq> c \<and>
        files w p = Some e \<and> \<not> writable e \<and>
        process_file_try p w = (Inl PermissionError,
           log_event (EvWrite p (apply_rules RULE_SET c)) (log_event (EvRead p) w))) \<or>
   (\<exists>c e r w3. fst (read_file p w) = Inr c \<and> apply_rules RULE_SET c \<noteq> c \<and>
        files w p = Some e \<and> writable e \<and>
        print (Updated p # map Change (map rule_line (fired_rules RULE_SET c)))
          ((log_event (EvWrite p (apply_rules RULE_SET c)) (log_event (EvRead p) w))
              \<lparr>files := (files w)(p \<mapsto> e\<lparr>data := Some (apply_rules RULE_SET c)\<rparr>)\<rparr>)
          = (r, w3) \<and>
        process_file_try p w = (case r of None \<Rightarrow> Inr True | Some e' \<Rightarrow> Inl e', w3))"
proof (cases "fst (read_file p w)")
  case (Inl e)
  then show ?thesis by (simp add: process_file_try_unread)
next
  case (Inr c)
  from read_file_Inr_entry [OF Inr] obtain e where e: "files w p = Some e" by blast
  then have wf: "files (log_event (EvRead p) w) p = Some e" by simp
  show ?thesis
  proof (cases "apply_rules RULE_SET c = c")
    case True
    with Inr show ?thesis by (simp add: process_file_try_read Let_def)
  next
    case False
    show ?thesis
    proof (cases "writable e")
      case False
      with Inr e \<open>apply_rules RULE_SET c \<noteq> c\<close> show ?thesis
        by (simp add: process_file_try_read Let_def write_file_cases [OF wf])
    next
      case True
      let ?w2 = "(log_event (EvWrite p (apply_rules RULE_SET c)) (log_event (EvRead p) w))
              \<lparr>files := (files w)(p \<mapsto> e\<lparr>data := Some (apply_rules RULE_SET c)\<rparr>)\<rparr>"
      obtain r w3 where pr:
        "print (Updated p # map Change (map rule_line (fired_rules RULE_SET c))) ?w2 = (r, w3)"
        by (cases "print (Updated p # map Change (map rule_line (fired_rules RULE_SET c))) ?w2")
      have "process_file_try p w = (case r of None \<Rightarrow> Inr True | Some e' \<Rightarrow> Inl e', w3)"
        using Inr \<open>apply_rules RULE_SET c \<noteq> c\<close> True pr
        by (simp add: process_file_try_read Let_def write_file_cases [OF wf] split: option.splits)
      with Inr e \<open>apply_rules RULE_SET c \<noteq> c\<close> True pr show ?thesis by blast
    qed
  qed
qed

section \<open>The content of a processed file\<close>

text \<open>
  C1: when \<open>process_file\<close> reads a file and no exception leaves its \<open>try\<close> block,
  the content of the file afterwards is the result of applying every rule of the Rule
  Set (the UI, then the domain, then the store rules), each to the output of the one
  before, to the original content; \<open>process_file\<close> returns \<open>True\<close>, and has written the
  file, exactly when that result differs from the original content.
\<close>

theorem process_file_final_content:
  assumes rd: "fst (read_file path w) = Inr original"
    and ok: "process_file_try path w = (Inr changed, w')"
  shows "map_option data (files w' path) = Some (Some (apply_rules RULE_SET original)) \<and>
         (changed \<longleftrightarrow> apply_rules RULE_SET original \<noteq> original) \<and>
         process_file path w = (Inr changed, w') \<and>
         trace w' = trace w @ EvRead path #
            (if changed then [EvWrite path (apply_rules RULE_SET original)] else [])"
proof -
  from read_file_Inr_entry [OF rd] obtain e where
    e: "files w path = Some e" "readable e" "data e = Some original" by blast
  have pf: "process_file path w = (Inr changed, w')" by (simp add: process_file_def ok)
  from process_file_try_cases [of path w] show ?thesis
  proof (elim disjE exE conjE)
    fix e' assume "fst (read_file path w) = Inl e'"
    with rd show ?thesis by simp
  next
    fix c assume "fst (read_file path w) = Inr c" "apply_rules RULE_SET c = c"
      "process_file_try path w = (Inr False, log_event (EvRead path) w)"
    with rd ok e pf show ?thesis by auto
  next
    fix c e' assume "process_file_try path w = (Inl PermissionError,
           log_event (EvWrite path (apply_rules RULE_SET c)) (log_event (EvRead path) w))"
    with ok show ?thesis by simp
  next
    fix c e' r w3
    assume c: "fst (read_file path w) = Inr c" and ne: "apply_rules RULE_SET c \<noteq> c"
      and e': "files w path = Some e'"
      and pr: "print (Updated path # map Change (map rule_line (fired_rules RULE_SET c)))
          ((log_event (EvWrite path (apply_rules RULE_SET c)) (log_event (EvRead path) w))
              \<lparr>files := (files w)(path \<mapsto> e'\<lparr>data := Some (apply_rules RULE_SET c)\<rparr>)\<rparr>)
          = (r, w3)"
      and t: "process_file_try path w = (case r of None \<Rightarrow> Inr True | Some e' \<Rightarrow> Inl e', w3)"
    from c rd have co: "c = original" by simp
    from t ok have ch: "changed" and w3: "w3 = w'" by (simp_all split: option.splits)
    from print_frame [OF pr] w3 have "files w' = (files w)(path \<mapsto> e'\<lparr>data := Some (apply_rules RULE_SET c)\<rparr>)"
      and "trace w' = trace w @ [EvRead path, EvWrite path (apply_rules RULE_SET c)]"
      by simp_all
    with co ne ch pf show ?thesis by simp
  qed
qed

lemma apply_rules_ex: "apply_rules RULE_SET ex_content = ex_migrated"
  by (simp add: apply_rules_def apply_rule_def RULE_SET_def UI_REPLACEMENTS_def literal_def
      DOMAIN_REPLACEMENTS_def STORE_REPLACEMENTS_def ex_content_def ex_migrated_def str_def)

lemma fired_rules_ex: "fired_rules RULE_SET ex_content = [ex_rule]"
  by (simp add: apply_rule_def RULE_SET_def UI_REPLACEMENTS_def literal_def sublist_code
      DOMAIN_REPLACEMENTS_def STORE_REPLACEMENTS_def ex_content_def ex_rule_def str_def)

lemma ex_migrated_neq: "ex_migrated \<noteq> ex_content"
  by (simp add: ex_migrated_def ex_content_def str_def)

lemma read_ex: "fst (read_file ex_path ex_world) = Inr ex_content"
  by (simp add: read_file_def ex_world_def plain_file_def Let_def)

text \<open>The lines for the example file can be encoded in UTF-8.\<close>

lemma ex_lines_encodable:
  "list_all utf8_strict (line_text (Updated ex_path))"
  "list_all utf8_strict (line_text (Change (rule_line ex_rule)))"
  by (simp_all add: utf8_strict_def ex_path_def ex_rule_def rule_line_def change_line_def str_def)

lemma ex_can_print:
  assumes "stdout_encodes w = utf8_strict"
  shows "print [Updated ex_path, Change (rule_line ex_rule)] w =
           (None, emit [Updated ex_path, Change (rule_line ex_rule)] w)"
  by (rule print_ok) (simp add: can_print_def assms ex_lines_encodable del: line_text.simps)

lemma process_file_try_ex:
  "process_file_try ex_path ex_world =
    (Inr True, \<lparr>files = [ex_path \<mapsto> plain_file ex_migrated], tree = Map.empty,
       trace = [EvRead ex_path, EvWrite ex_path ex_migrated],
       out = [Updated ex_path, Change (rule_line ex_rule)], stdout_encodes = utf8_strict\<rparr>)"
proof -
  let ?w2 = "(log_event (EvWrite ex_path ex_migrated) (log_event (EvRead ex_path) ex_world))
               \<lparr>files := (files ex_world)(ex_path \<mapsto> (plain_file ex_content)\<lparr>data := Some ex_migrated\<rparr>)\<rparr>"
  have w: "write_file ex_path ex_migrated (log_event (EvRead ex_path) ex_world) = (None, ?w2)"
    by (simp add: write_file_def Let_def ex_world_def plain_file_def)
  have s: "stdout_encodes ?w2 = utf8_strict" by (simp add: ex_world_def)
  have "process_file_try ex_path ex_world =
          (Inr True, emit [Updated ex_path, Change (rule_line ex_rule)] ?w2)"
    unfolding process_file_try_read [OF read_ex] apply_rules_ex fired_rules_ex
    by (simp add: ex_migrated_neq w ex_can_print [OF s] del: print.simps)
  then show ?thesis
    by (simp add: emit_def log_event_def ex_world_def plain_file_def)
qed

theorem process_file_final_content_witness:
  "fst (read_file ex_path ex_world) = Inr ex_content \<and>
   fst (process_file_try ex_path ex_world) = Inr True \<and>
   map_option data (files (snd (process_file_try ex_path ex_world)) ex_path)
     = Some (Some ex_migrated) \<and>
   fst (process_file ex_path ex_world) = Inr True"
  using process_file_final_content [OF read_ex process_file_try_ex]
  by (simp add: process_file_try_ex apply_rules_ex read_ex)

section \<open>Files without a pattern\<close>

lemma reads_append [simp]: "reads (xs @ ys) = reads xs @ reads ys"
  by (induction xs rule: reads.induct) simp_all

lemma writes_append [simp]: "writes (xs @ ys) = writes xs @ writes ys"
  by (induction xs rule: writes.induct) simp_all

lemma no_pattern_rules:
  "\<forall>rule \<in> set rules. \<not> sublist (fst rule) c \<Longrightarrow>
     apply_rules rules c = c \<and> fired_rules rules c = []"
  by (induction rules) (simp_all add: apply_rules_def apply_rule_def replace_all_no_occ)

text \<open>
  C5: when the content of a file contains none of the patterns of the rule tables, the
  substitution returns the content unchanged with an empty list of fired rules,
  \<open>process_file\<close> returns \<open>False\<close> after the read alone (no write, no change of any
  file), and the loop of \<open>main\<close> does not count the file as updated.
\<close>

theorem no_pattern_no_write:
  assumes rd: "fst (read_file path w) = Inr content"
    and none: "\<forall>rule \<in> set RULE_SET. \<not> sublist (fst rule) content"
  shows "substitute content = Inr (content, []) \<and>
         process_file path w = (Inr False, log_event (EvRead path) w) \<and>
         writes (trace (snd (process_file path w))) = writes (trace w) \<and>
         files (snd (process_file path w)) = files w \<and>
         process_files [path] (n, w) = (Inr n, log_event (EvRead path) w)"
proof -
  from no_pattern_rules [OF none]
  have same: "apply_rules RULE_SET content = content" and nofire: "fired_rules RULE_SET content = []"
    by simp_all
  have s: "substitute content = Inr (content, [])"
    by (simp add: substitute_literal same nofire)
  have t: "process_file_try path w = (Inr False, log_event (EvRead path) w)"
    by (simp add: process_file_try_read [OF rd] same Let_def)
  then have p: "process_file path w = (Inr False, log_event (EvRead path) w)"
    by (simp add: process_file_def)
  from s p show ?thesis by simp
qed

lemma read_ex_plain: "fst (read_file ex_path ex_world_plain) = Inr ex_plain"
  by (simp add: read_file_def ex_world_plain_def plain_file_def Let_def)

lemma ex_plain_none: "\<forall>rule \<in> set RULE_SET. \<not> sublist (fst rule) ex_plain"
  by (simp add: RULE_SET_def UI_REPLACEMENTS_def literal_def DOMAIN_REPLACEMENTS_def STORE_REPLACEMENTS_def
      ex_plain_def str_def sublist_code)

theorem no_pattern_no_write_witness:
  "fst (read_file ex_path ex_world_plain) = Inr ex_plain \<and>
   list_all (\<lambda>rule. \<not> sublist (fst rule) ex_plain) RULE_SET \<and>
   substitute ex_plain = Inr (ex_plain, []) \<and>
   fst (process_file ex_path ex_world_plain) = Inr False \<and>
   files (snd (process_file ex_path ex_world_plain)) = files ex_world_plain \<and>
   fst (process_files [ex_path] (0, ex_world_plain)) = Inr 0"
  using no_pattern_no_write [OF read_ex_plain ex_plain_none, of 0] read_ex_plain ex_plain_none
  by (simp add: list_all_iff)

section \<open>The writes of \<open>process_file\<close>\<close>

text \<open>
  The events and the files after \<open>process_file\<close>, whatever it returns or raises: the
  read alone, or the read and one write.
\<close>

lemma process_file_after_try:
  "process_file_try p w = (r, w') \<Longrightarrow>
     trace (snd (process_file p w)) = trace w' \<and> files (snd (process_file p w)) = files w' \<and>
     tree (snd (process_file p w)) = tree w'"
proof -
  assume t: "process_file_try p w = (r, w')"
  have "snd (process_file p w) =
          (case r of Inl e \<Rightarrow> snd (print [ErrorProcessing p e] w') | Inr b \<Rightarrow> w')"
    by (simp add: process_file_def t split: sum.splits prod.splits option.splits)
  then show ?thesis by (cases r) simp_all
qed

lemma process_file_effects:
  "tree (snd (process_file p w)) = tree w \<and>
   ((trace (snd (process_file p w)) = trace w @ [EvRead p] \<and>
     files (snd (process_file p w)) = files w \<and>
     (\<forall>c. fst (read_file p w) = Inr c \<longrightarrow> fst (process_file p w) = Inr False)) \<or>
    (\<exists>c e. fst (read_file p w) = Inr c \<and> apply_rules RULE_SET c \<noteq> c \<and>
        files w p = Some e \<and>
        trace (snd (process_file p w)) =
          trace w @ [EvRead p, EvWrite p (apply_rules RULE_SET c)] \<and>
        (files (snd (process_file p w)) = files w \<or>
         files (snd (process_file p w)) =
           (files w)(p \<mapsto> e\<lparr>data := Some (apply_rules RULE_SET c)\<rparr>))))"
  using process_file_try_cases [of p w]
proof (elim disjE exE conjE)
  fix e assume a: "fst (read_file p w) = Inl e"
    "process_file_try p w = (Inl e, log_event (EvRead p) w)"
  from process_file_after_try [OF a(2)] a(1) show ?thesis by simp
next
  fix c assume a: "fst (read_file p w) = Inr c" "apply_rules RULE_SET c = c"
    "process_file_try p w = (Inr False, log_event (EvRead p) w)"
  from process_file_after_try [OF a(3)] a(1) a(3) show ?thesis
    by (simp add: process_file_def)
next
  fix c e assume a: "fst (read_file p w) = Inr c" "apply_rules RULE_SET c \<noteq> c"
    "files w p = Some e"
    "process_file_try p w = (Inl PermissionError,
           log_event (EvWrite p (apply_rules RULE_SET c)) (log_event (EvRead p) w))"
  from process_file_after_try [OF a(4)] a(1,2,3) show ?thesis by simp
next
  fix c e r w3
  assume a: "fst (read_file p w) = Inr c" "apply_rules RULE_SET c \<noteq> c" "files w p = Some e"
    and pr: "print (Updated p # map Change (map rule_line (fired_rules RULE_SET c)))
          ((log_event (EvWrite p (apply_rules RULE_SET c)) (log_event (EvRead p) w))
              \<lparr>files := (files w)(p \<mapsto> e\<lparr>data := Some (apply_rules RULE_SET c)\<rparr>)\<rparr>)
          = (r, w3)"
    and t: "process_file_try p w = (case r of None \<Rightarrow> Inr True | Some e' \<Rightarrow> Inl e', w3)"
  from process_file_after_try [OF t] print_frame [OF pr] a show ?thesis by simp
qed

lemma dom_overwrite: "m p = Some e \<Longrightarrow> dom (m(p \<mapsto> e')) = dom m"
  by auto

text \<open>
  C9: one call of \<open>process_file\<close> opens at most one file for writing, and only when the
  substituted content differs from the content read; it is the file at the path that
  was read, which exists already, and its whole content is replaced by the substituted
  content.  No other path changes, none is created or removed, and the directory
  structure stays as it is.
\<close>

theorem write_frame:
  assumes "process_file path w = (res, w')"
  shows "(writes (trace w') = writes (trace w) \<or>
          (\<exists>original content fired.
             fst (read_file path w) = Inr original \<and>
             substitute original = Inr (content, fired) \<and> content \<noteq> original \<and>
             writes (trace w') = writes (trace w) @ [(path, content)])) \<and>
         (files w' = files w \<or>
          (\<exists>original content fired e.
             fst (read_file path w) = Inr original \<and>
             substitute original = Inr (content, fired) \<and> content \<noteq> original \<and>
             files w path = Some e \<and>
             files w' = (files w)(path \<mapsto> e\<lparr>data := Some content\<rparr>))) \<and>
         dom (files w') = dom (files w) \<and> tree w' = tree w"
proof -
  from assms have w': "snd (process_file path w) = w'" by simp
  from process_file_effects [of path w] show ?thesis
    unfolding w'
    by (elim disjE exE conjE)
       (clarsimp simp: substitute_literal dom_overwrite simp del: dom_fun_upd)+
qed

theorem write_frame_witness:
  "writes (trace (snd (process_file ex_path ex_world))) = [(ex_path, ex_migrated)] \<and>
   files (snd (process_file ex_path ex_world)) = [ex_path \<mapsto> plain_file ex_migrated] \<and>
   dom (files (snd (process_file ex_path ex_world))) = dom (files ex_world)"
proof -
  have pf: "process_file ex_path ex_world =
    (Inr True, \<lparr>files = [ex_path \<mapsto> plain_file ex_migrated], tree = Map.empty,
       trace = [EvRead ex_path, EvWrite ex_path ex_migrated],
       out = [Updated ex_path, Change (rule_line ex_rule)], stdout_encodes = utf8_strict\<rparr>)"
    by (simp add: process_file_def process_file_try_ex)
  from write_frame [OF pf] show ?thesis by (simp add: pf)
qed

section \<open>A source directory that does not exist\<close>



section \<open>Errors of single files in the loop\<close>

lemma process_files_append:
  "process_files (xs @ ys) st =
     (case process_files xs st of
        (Inl e, w) \<Rightarrow> (Inl e, w)
      | (Inr m, w) \<Rightarrow> process_files ys (m, w))"
proof (induction xs st rule: process_files.induct)
  case (1 updated_count w)
  then show ?case by simp
next
  case (2 file_path rest updated_count w)
  then show ?case
    by (simp split: prod.splits sum.splits bool.splits option.splits)
qed

text \<open>
  When the line for the error can be printed, the error of one file stays with that
  file: \<open>process_file\<close> returns \<open>False\<close> and the loop goes on with the files after it.
\<close>

lemma failing_file_printable:
  assumes "process_files before (n, w) = (Inr m, wk)"
    and "process_file_try k wk = (Inl e, wk')"
    and "can_print wk' (ErrorProcessing k e)"
  shows "process_file k wk = (Inr False, emit [ErrorProcessing k e] wk')"
    and "process_files (before @ k # after) (n, w) =
           process_files after (m, emit [ErrorProcessing k e] wk')"
proof -
  show pf: "process_file k wk = (Inr False, emit [ErrorProcessing k e] wk')"
    by (simp add: process_file_def assms(2,3))
  show "process_files (before @ k # after) (n, w) =
           process_files after (m, emit [ErrorProcessing k e] wk')"
    by (simp add: process_files_append assms(1) pf)
qed

text \<open>
  When it cannot be printed, the \<open>print\<close> of the handler raises, the exception leaves
  \<open>process_file\<close> and the loop, and the files after the failing one are not processed.
\<close>

lemma failing_file_unprintable:
  assumes "process_files before (n, w) = (Inr m, wk)"
    and "process_file_try k wk = (Inl e, wk')"
    and "\<not> can_print wk' (ErrorProcessing k e)"
  shows "process_files (before @ k # after) (n, w) = (Inl UnicodeEncodeError, wk')"
  by (simp add: process_files_append assms process_file_def)

lemma try_ex_bad:
  "process_file_try ex_bad_path ex_world_bad =
     (Inl UnicodeDecodeError, log_event (EvRead ex_bad_path) ex_world_bad)"
proof -
  have "fst (read_file ex_bad_path ex_world_bad) = Inl UnicodeDecodeError"
    by (simp add: read_file_def ex_world_bad_def Let_def)
  then show ?thesis by (rule process_file_try_unread)
qed

lemma ex_bad_unprintable:
  "\<not> can_print (log_event (EvRead ex_bad_path) ex_world_bad)
       (ErrorProcessing ex_bad_path UnicodeDecodeError)"
  by (simp add: can_print_def ex_world_bad_def ex_bad_path_def utf8_strict_def)

lemma ex_paths_distinct: "ex_path \<noteq> ex_bad_path"
  by (simp add: ex_path_def ex_bad_path_def str_def)

text \<open>
  C4, at a failing input: a directory with two files.  The first has a name with a byte
  that is not UTF-8 and a content that is not UTF-8; the second is an ordinary file
  with an import to migrate.  The standard output has the encoding UTF-8.  Reading the
  first file raises \<open>UnicodeDecodeError\<close>, which the \<open>except\<close> clause catches; printing
  the error raises \<open>UnicodeEncodeError\<close> for the file name, and this exception leaves
  \<open>process_file\<close> and the loop.  The second file is never opened and keeps its old
  content, although \<open>process_file\<close> alone would update it.
\<close>

theorem fault_isolation_broken:
  "fst (process_file_try ex_bad_path ex_world_bad) = Inl UnicodeDecodeError \<and>
   process_file ex_bad_path ex_world_bad =
     (Inl UnicodeEncodeError, log_event (EvRead ex_bad_path) ex_world_bad) \<and>
   process_files [ex_bad_path, ex_path] (0, ex_world_bad) =
     (Inl UnicodeEncodeError, log_event (EvRead ex_bad_path) ex_world_bad) \<and>
   reads (trace (snd (process_files [ex_bad_path, ex_path] (0, ex_world_bad)))) = [ex_bad_path] \<and>
   files (snd (process_files [ex_bad_path, ex_path] (0, ex_world_bad))) ex_path =
     Some (plain_file ex_content) \<and>
   fst (process_file ex_path ex_world_bad) = Inr True"
proof -
  have nil: "process_files [] (0, ex_world_bad) = (Inr 0, ex_world_bad)" by simp
  have pf: "process_file ex_bad_path ex_world_bad =
     (Inl UnicodeEncodeError, log_event (EvRead ex_bad_path) ex_world_bad)"
    using ex_bad_unprintable by (simp add: process_file_def try_ex_bad)
  from failing_file_unprintable [OF nil try_ex_bad ex_bad_unprintable, of "[ex_path]"]
  have loop: "process_files [ex_bad_path, ex_path] (0, ex_world_bad) =
     (Inl UnicodeEncodeError, log_event (EvRead ex_bad_path) ex_world_bad)"
    by (simp del: process_files.simps)
  have t: "trace ex_world_bad = []" and f: "files ex_world_bad ex_path = Some (plain_file ex_content)"
    by (simp_all add: ex_world_bad_def ex_paths_distinct)
  have rd: "fst (read_file ex_path ex_world_bad) = Inr ex_content"
    by (simp add: read_file_def Let_def ex_world_bad_def plain_file_def ex_paths_distinct)
  let ?w2 = "(log_event (EvWrite ex_path ex_migrated) (log_event (EvRead ex_path) ex_world_bad))
               \<lparr>files := (files ex_world_bad)(ex_path \<mapsto> (plain_file ex_content)\<lparr>data := Some ex_migrated\<rparr>)\<rparr>"
  have w: "write_file ex_path ex_migrated (log_event (EvRead ex_path) ex_world_bad) = (None, ?w2)"
    by (simp add: write_file_def Let_def ex_world_bad_def plain_file_def ex_paths_distinct)
  have s: "stdout_encodes ?w2 = utf8_strict" by (simp add: ex_world_bad_def)
  have "fst (process_file_try ex_path ex_world_bad) = Inr True"
    unfolding process_file_try_read [OF rd] apply_rules_ex fired_rules_ex
    by (simp add: ex_migrated_neq w ex_can_print [OF s] del: print.simps)
  then have alone: "fst (process_file ex_path ex_world_bad) = Inr True"
    by (cases "process_file_try ex_path ex_world_bad") (simp add: process_file_def)
  from pf loop t f alone try_ex_bad show ?thesis by (simp del: process_files.simps)
qed

section \<open>The candidate files\<close>

lemma path_below_Nil: "path_below top_dir ([], f) = path_join top_dir f"
  by (simp add: path_below_def)

lemma path_below_Cons: "path_below top_dir (d # ds, f) = path_below (path_join top_dir d) (ds, f)"
  by (simp add: path_below_def)

lemma candidate_Nil: "candidate ([], f) = is_rust_file f"
  by (simp add: candidate_def)

lemma candidate_Cons: "candidate (d # ds, f) = (keep_dir d \<and> candidate (ds, f))"
  by (auto simp: candidate_def)

lemma collect_tree_files:
  "collect top_dir n = map (path_below top_dir) (filter candidate (tree_files n))"
proof (induction keep_dir top_dir n rule: os_walk.induct)
  case (1 top_dir uu)
  then show ?case by (simp add: collect_def)
next
  case (2 top_dir uv entries)
  have files_part:
    "map (path_join top_dir) (filter is_rust_file (map node_name (filter (\<lambda>n. \<not> is_dir n) entries)))
     = map (path_below top_dir) (filter candidate (map (\<lambda>n. ([], node_name n)) (filter (\<lambda>n. \<not> is_dir n) entries)))"
    by (induction entries) (simp_all add: path_below_Nil candidate_Nil)
  have sub: "(if is_dir n \<and> keep_dir (node_name n) then collect (path_join top_dir (node_name n)) n else [])
      = map (path_below top_dir) (filter candidate
          (if is_dir n then map (\<lambda>(ds, f). (node_name n # ds, f)) (tree_files n) else []))"
    if "n \<in> set entries" for n
  proof (cases "is_dir n \<and> keep_dir (node_name n)")
    case True
    with 2 [OF that] have "collect (path_join top_dir (node_name n)) n =
       map (path_below (path_join top_dir (node_name n))) (filter candidate (tree_files n))"
      by simp
    with True show ?thesis
      by (simp add: filter_map o_def split_def candidate_Cons path_below_Cons)
  next
    case False
    then show ?thesis
      by (auto simp: filter_map o_def split_def candidate_Cons filter_empty_conv)
  qed
  have "collect top_dir (Dir uv entries) =
      map (path_join top_dir) (filter is_rust_file (map node_name (filter (\<lambda>n. \<not> is_dir n) entries)))
      @ concat (map (\<lambda>n. if is_dir n \<and> keep_dir (node_name n) then collect (path_join top_dir (node_name n)) n else []) entries)"
  proof -
    have "concat (map g (concat (map (\<lambda>n. if c n then h n else []) es))) =
          concat (map (\<lambda>n. if c n then concat (map g (h n)) else []) es)"
      for g :: "pystr \<times> pystr list \<times> pystr list \<Rightarrow> pystr list" and c h and es :: "node list"
      by (induction es) simp_all
    then show ?thesis unfolding collect_def by simp
  qed
  also have "concat (map (\<lambda>n. if is_dir n \<and> keep_dir (node_name n) then collect (path_join top_dir (node_name n)) n else []) entries)
     = concat (map (\<lambda>n. map (path_below top_dir) (filter candidate
          (if is_dir n then map (\<lambda>(ds, f). (node_name n # ds, f)) (tree_files n) else []))) entries)"
    using sub by (simp cong: map_cong)
  finally show ?case
    by (simp add: files_part map_concat filter_concat o_def)
qed


lemma find_rust_files_collect:
  "tree w root_dir = Some n \<Longrightarrow> find_rust_files root_dir w = collect root_dir n"
  by (simp add: find_rust_files_def collect_def)

text \<open>
  C6: the candidates that \<open>find_rust_files\<close> returns for a directory tree are, in the
  order of the walk, the paths of exactly those files of the tree whose name ends in
  \<open>.rs\<close> and does not start with \<open>.\<close>, and none of whose directories below the root
  has a name that starts with \<open>.\<close> or is \<open>target\<close>.
\<close>

theorem candidate_enumeration:
  assumes "tree w root_dir = Some n"
  shows "find_rust_files root_dir w = map (path_below root_dir) (filter candidate (tree_files n)) \<and>
         (\<forall>p. p \<in> set (find_rust_files root_dir w) \<longleftrightarrow>
            (\<exists>ds f. (ds, f) \<in> set (tree_files n) \<and> p = path_below root_dir (ds, f) \<and>
                endswith f (str ''.rs'') \<and> \<not> startswith f (str ''.'') \<and>
                (\<forall>d \<in> set ds. \<not> startswith d (str ''.'') \<and> d \<noteq> str ''target'')))"
proof -
  have eq: "find_rust_files root_dir w = map (path_below root_dir) (filter candidate (tree_files n))"
    by (simp add: find_rust_files_collect [OF assms] collect_tree_files)
  have "p \<in> set (find_rust_files root_dir w) \<longleftrightarrow>
          (\<exists>ds f. (ds, f) \<in> set (tree_files n) \<and> p = path_below root_dir (ds, f) \<and>
                endswith f (str ''.rs'') \<and> \<not> startswith f (str ''.'') \<and>
                (\<forall>d \<in> set ds. \<not> startswith d (str ''.'') \<and> d \<noteq> str ''target''))" for p
    unfolding eq by (auto simp: candidate_def is_rust_file_def keep_dir_def list_all_iff image_iff)
  with eq show ?thesis by blast
qed

lemma ex_tree_candidates:
  "map (path_below (str ''src'')) (filter candidate (tree_files ex_tree)) =
     [str ''src/main.rs'', str ''src/ui/mod.rs'']"
  by code_simp

theorem candidate_enumeration_witness:
  "tree ex_world_tree (str ''src'') = Some ex_tree \<and>
   find_rust_files (str ''src'') ex_world_tree = [str ''src/main.rs'', str ''src/ui/mod.rs'']"
proof -
  have t: "tree ex_world_tree (str ''src'') = Some ex_tree" by (simp add: ex_world_tree_def)
  from candidate_enumeration [OF t] t show ?thesis by (simp add: ex_tree_candidates)
qed

section \<open>Rules that do not interfere\<close>

lemma clash_sym: "clash xs ys = clash ys xs"
  by (auto simp: clash_def)

lemma clash_prefix: "prefix h q \<Longrightarrow> clash t q \<Longrightarrow> clash t h"
  unfolding clash_def
  by (metis prefix_order.order_trans prefix_same_cases)

lemma clash_free_prefix: "prefix h q \<Longrightarrow> clash_free xs h \<Longrightarrow> clash_free xs q"
  by (induction xs) (auto dest: clash_prefix)

lemma clash_freeD: "clash_free xs q \<Longrightarrow> suffix t xs \<Longrightarrow> t \<noteq> [] \<Longrightarrow> \<not> clash t q"
  by (induction xs) (auto simp: suffix_Cons)

lemma clash_free_ne: "xs \<noteq> [] \<Longrightarrow> clash_free xs q = (\<not> clash xs q \<and> clash_free (tl xs) q)"
  by (cases xs) simp_all

lemma heads_ok_independent:
  assumes "heads_ok pheads rheads rules"
  shows "independent rules"
proof -
  have d: "distinct (map fst rules)" using assms by (simp add: heads_ok_def)
  have each: "fst rule \<noteq> [] \<and>
        (\<exists>h \<in> set pheads. prefix h (fst rule)) \<and>
        (\<exists>g \<in> set rheads. prefix g (snd rule)) \<and>
        (\<forall>h \<in> set pheads. clash_free (snd rule) h \<and> clash_free (tl (fst rule)) h) \<and>
        (\<forall>g \<in> set rheads. clash_free (fst rule) g) \<and>
        (\<forall>other \<in> set rules. fst other = fst rule \<or> \<not> clash (fst rule) (fst other))"
    if "rule \<in> set rules" for rule
    using assms that by (simp add: heads_ok_def list_all_iff list_ex_iff)
  have pair: "no_overlap (snd rule) (fst other) \<and>
              (fst other = fst rule \<or> no_overlap (fst rule) (fst other))"
    if r: "rule \<in> set rules" and o: "other \<in> set rules" for rule other
  proof -
    from each [OF r] obtain h g where
      h: "h \<in> set pheads" "prefix h (fst rule)" and g: "g \<in> set rheads" "prefix g (snd rule)"
      by blast
    from each [OF o] obtain h' where h': "h' \<in> set pheads" "prefix h' (fst other)"
      by blast
    have 1: "clash_free (snd rule) (fst other)"
      using each [OF r] h' by (blast intro: clash_free_prefix)
    have 2: "clash_free (fst other) (snd rule)"
      using each [OF o] g by (blast intro: clash_free_prefix)
    have 3: "no_overlap (fst rule) (fst other)" if ne: "fst other \<noteq> fst rule"
    proof -
      from each [OF r] o ne have a: "\<not> clash (fst rule) (fst other)" by blast
      from each [OF o] r ne have b: "\<not> clash (fst other) (fst rule)" by metis
      have c: "clash_free (tl (fst rule)) (fst other)"
        using each [OF r] h' by (blast intro: clash_free_prefix)
      have e: "clash_free (tl (fst other)) (fst rule)"
        using each [OF o] h by (blast intro: clash_free_prefix)
      from each [OF r] have x: "fst rule \<noteq> []" by blast
      from each [OF o] have y: "fst other \<noteq> []" by blast
      from a b c e show ?thesis
        by (simp add: no_overlap_def clash_free_ne [OF x] clash_free_ne [OF y])
    qed
    from 1 2 3 show ?thesis by (auto simp: no_overlap_def)
  qed
  have self: "clash_free (tl (fst rule)) (fst rule)" if r: "rule \<in> set rules" for rule
    using each [OF r] by (blast intro: clash_free_prefix)
  from d each pair self show ?thesis
    by (simp add: independent_def list_all_iff)
qed

lemma prefix_map_inj: "inj f \<Longrightarrow> prefix (map f xs) (map f ys) = prefix xs ys"
proof (induction xs arbitrary: ys)
  case Nil
  then show ?case by simp
next
  case (Cons x xs)
  then show ?case by (cases ys) (auto dest: injD)
qed

lemma clash_map_inj: "inj f \<Longrightarrow> clash (map f xs) (map f ys) = clash xs ys"
  by (simp add: clash_def prefix_map_inj)

lemma clash_free_map_inj: "inj f \<Longrightarrow> clash_free (map f xs) (map f ys) = clash_free xs ys"
proof (induction xs)
  case Nil
  then show ?case by simp
next
  case (Cons x xs)
  from clash_map_inj [OF Cons.prems, of "x # xs" ys] Cons show ?case by simp
qed

lemma independent_map_inj:
  assumes "inj f"
  shows "independent (map (\<lambda>rule. (map f (fst rule), map f (snd rule))) rules) = independent rules"
proof -
  have inj': "inj (map f)" using assms by simp
  have "map fst (map (\<lambda>rule. (map f (fst rule), map f (snd rule))) rules) = map (map f) (map fst rules)"
    by simp
  then have d: "distinct (map fst (map (\<lambda>rule. (map f (fst rule), map f (snd rule))) rules))
      = distinct (map fst rules)"
    using inj' by (simp only: distinct_map) (auto intro: inj_on_subset)
  have eq: "(map f a = map f b) = (a = b)" for a b using inj' by (simp add: inj_eq)
  show ?thesis
    unfolding independent_def d
    by (simp add: list_all_iff no_overlap_def clash_free_map_inj [OF assms] eq
        map_tl [symmetric])
qed

lemma strings_heads_ok:
  "heads_ok [''use c'', ''from c''] [''use o'', ''use r'', ''from r'']
     (UI_REPLACEMENTS @ DOMAIN_REPLACEMENTS @ STORE_REPLACEMENTS)"
  by code_simp

lemma rules_independent: "independent RULE_SET"
proof -
  have "independent (UI_REPLACEMENTS @ DOMAIN_REPLACEMENTS @ STORE_REPLACEMENTS)"
    using strings_heads_ok by (rule heads_ok_independent)
  then have "independent (map (\<lambda>rule. (map of_char (fst rule), map of_char (snd rule)))
                (UI_REPLACEMENTS @ DOMAIN_REPLACEMENTS @ STORE_REPLACEMENTS) :: (pystr \<times> pystr) list)"
    by (simp only: independent_map_inj [OF inj_of_char])
  then show ?thesis by (simp add: RULE_SET_def literal_def [abs_def] str_def [abs_def])
qed

section \<open>Replacement and occurrences\<close>

lemma prefix_append_clash: "prefix q (xs @ ys) \<Longrightarrow> clash xs q"
  by (auto simp: clash_def prefix_append)

lemma prefix_clash: "prefix a s \<Longrightarrow> prefix b s \<Longrightarrow> clash a b"
  unfolding clash_def by (rule prefix_same_cases)

text \<open>A suffix of \<open>q\<close> that starts the output of a replacement starts its input.\<close>

lemma prefix_replace_all_out:
  "p \<noteq> [] \<Longrightarrow> clash_free q r \<Longrightarrow> suffix t q \<Longrightarrow> prefix t (replace_all p r s) \<Longrightarrow> prefix t s"
proof (induction p r s arbitrary: t rule: replace_all.induct)
  case (1 old new)
  then show ?case by simp
next
  case (2 old new c cs)
  note ne = \<open>old \<noteq> []\<close> and cf = \<open>clash_free q new\<close> and suf = \<open>suffix t q\<close>
  show ?case
  proof (cases "t = []")
    case True
    then show ?thesis by simp
  next
    case False
    note tne = this
    show ?thesis
    proof (cases "prefix old (c # cs)")
      case True
      with "2.prems"(4) ne have "prefix t (new @ replace_all old new (drop (length old) (c # cs)))"
        by simp
      then have "clash new t" by (rule prefix_append_clash)
      then have "clash t new" by (simp add: clash_sym)
      with clash_freeD [OF cf suf tne] show ?thesis by simp
    next
      case False
      with "2.prems"(4) ne have pt: "prefix t (c # replace_all old new cs)" by simp
      with tne obtain t' where t: "t = c # t'" and pt': "prefix t' (replace_all old new cs)"
        by (auto simp: prefix_Cons)
      from suf t have "suffix t' q" by (auto dest: suffix_ConsD)
      from "2.IH"(3) [OF ne False ne cf this pt'] t show ?thesis by simp
    qed
  qed
qed

text \<open>A suffix of \<open>q\<close> that starts the input of a replacement starts its output.\<close>

lemma prefix_replace_all_in:
  "p \<noteq> [] \<Longrightarrow> clash_free q p \<Longrightarrow> suffix t q \<Longrightarrow> prefix t s \<Longrightarrow> prefix t (replace_all p r s)"
proof (induction p r s arbitrary: t rule: replace_all.induct)
  case (1 old new)
  then show ?case by simp
next
  case (2 old new c cs)
  note ne = \<open>old \<noteq> []\<close> and cf = \<open>clash_free q old\<close> and suf = \<open>suffix t q\<close>
  show ?case
  proof (cases "t = []")
    case True
    then show ?thesis by simp
  next
    case False
    note tne = this
    show ?thesis
    proof (cases "prefix old (c # cs)")
      case True
      from prefix_clash [OF "2.prems"(4) True] have "clash t old" .
      with clash_freeD [OF cf suf tne] show ?thesis by simp
    next
      case False
      from "2.prems"(4) tne obtain t' where t: "t = c # t'" and pt': "prefix t' cs"
        by (auto simp: prefix_Cons)
      from suf t have "suffix t' q" by (auto dest: suffix_ConsD)
      from "2.IH"(3) [OF ne False ne cf this pt'] t ne False show ?thesis by simp
    qed
  qed
qed

lemma sublist_append_free: "clash_free xs q \<Longrightarrow> sublist q (xs @ ys) \<Longrightarrow> sublist q ys"
proof (induction xs)
  case Nil
  then show ?case by simp
next
  case (Cons x xs)
  from Cons.prems(2) have "prefix q ((x # xs) @ ys) \<or> sublist q (xs @ ys)"
    by (simp add: sublist_Cons_right)
  moreover have "\<not> prefix q ((x # xs) @ ys)"
    using Cons.prems(1) prefix_append_clash [of q "x # xs" ys] by auto
  ultimately show ?case using Cons by simp
qed

lemma count_occ_append_free: "clash_free xs q \<Longrightarrow> count_occ q (xs @ ys) = count_occ q ys"
proof (induction xs)
  case Nil
  then show ?case by simp
next
  case (Cons x xs)
  have "\<not> prefix q ((x # xs) @ ys)"
    using Cons.prems prefix_append_clash [of q "x # xs" ys] by auto
  with Cons show ?case by simp
qed

lemma count_occ_pos: "0 < count_occ q s \<longleftrightarrow> sublist q s"
  by (induction s) (auto simp: sublist_Cons_right)

text \<open>After the replacement of \<open>p\<close>, no occurrence of \<open>p\<close> is left.\<close>

lemma replace_all_removes:
  "p \<noteq> [] \<Longrightarrow> no_overlap r p \<Longrightarrow> \<not> sublist p (replace_all p r s)"
proof (induction p r s rule: replace_all.induct)
  case (1 old new)
  then show ?case by simp
next
  case (2 old new c cs)
  note ne = \<open>old \<noteq> []\<close>
  from "2.prems"(2) have cf1: "clash_free new old" and cf2: "clash_free old new"
    by (simp_all add: no_overlap_def)
  show ?case
  proof (cases "prefix old (c # cs)")
    case True
    from "2.IH"(2) [OF ne True ne "2.prems"(2)]
    have "\<not> sublist old (replace_all old new (drop (length old) (c # cs)))" .
    with sublist_append_free [OF cf1] ne True show ?thesis by auto
  next
    case False
    have "\<not> prefix old (c # replace_all old new cs)"
    proof
      assume "prefix old (c # replace_all old new cs)"
      with ne False have "prefix old (replace_all old new (c # cs))" by simp
      from prefix_replace_all_out [OF ne cf2 suffix_order.order_refl this] False
      show False by simp
    qed
    with "2.IH"(3) [OF ne False ne "2.prems"(2)] ne False show ?thesis
      by (simp add: sublist_Cons_right)
  qed
qed

text \<open>The replacement of \<open>p\<close> neither makes nor destroys an occurrence of \<open>q\<close>.\<close>

lemma count_occ_replace_all:
  "p \<noteq> [] \<Longrightarrow> no_overlap r q \<Longrightarrow> no_overlap p q \<Longrightarrow>
   count_occ q (replace_all p r s) = count_occ q s"
proof (induction p r s rule: replace_all.induct)
  case (1 old new)
  then show ?case by simp
next
  case (2 old new c cs)
  note ne = \<open>old \<noteq> []\<close>
  from "2.prems" have cfr: "clash_free new q" and cfq: "clash_free q new"
    and cfp: "clash_free old q" and cfqp: "clash_free q old"
    by (simp_all add: no_overlap_def)
  show ?case
  proof (cases "prefix old (c # cs)")
    case True
    then have s: "c # cs = old @ drop (length old) (c # cs)"
      by (metis append_take_drop_id prefix_def append_eq_conv_conj)
    have "count_occ q (replace_all old new (c # cs)) =
          count_occ q (replace_all old new (drop (length old) (c # cs)))"
      using ne True by (simp add: count_occ_append_free [OF cfr])
    also have "\<dots> = count_occ q (drop (length old) (c # cs))"
      using "2.IH"(2) [OF ne True ne "2.prems"(2,3)] .
    also have "\<dots> = count_occ q (old @ drop (length old) (c # cs))"
      by (simp add: count_occ_append_free [OF cfp])
    finally show ?thesis using s by simp
  next
    case False
    have "prefix q (c # replace_all old new cs) \<longleftrightarrow> prefix q (c # cs)"
    proof
      assume "prefix q (c # replace_all old new cs)"
      with ne False have "prefix q (replace_all old new (c # cs))" by simp
      from prefix_replace_all_out [OF ne cfq suffix_order.order_refl this]
      show "prefix q (c # cs)" .
    next
      assume "prefix q (c # cs)"
      from prefix_replace_all_in [OF ne cfqp suffix_order.order_refl this, of new] ne False
      show "prefix q (c # replace_all old new cs)" by simp
    qed
    with "2.IH"(3) [OF ne False ne "2.prems"(2,3)] ne False show ?thesis by simp
  qed
qed

lemma sublist_replace_all:
  "p \<noteq> [] \<Longrightarrow> no_overlap r q \<Longrightarrow> sublist q (replace_all p r s) \<Longrightarrow> sublist q s"
proof (induction p r s rule: replace_all.induct)
  case (1 old new)
  then show ?case by simp
next
  case (2 old new c cs)
  note ne = \<open>old \<noteq> []\<close>
  from "2.prems"(2) have cfr: "clash_free new q" and cfq: "clash_free q new"
    by (simp_all add: no_overlap_def)
  show ?case
  proof (cases "prefix old (c # cs)")
    case True
    with "2.prems"(3) ne have "sublist q (new @ replace_all old new (drop (length old) (c # cs)))"
      by simp
    from sublist_append_free [OF cfr this]
    have "sublist q (drop (length old) (c # cs))"
      by (rule "2.IH"(2) [OF ne True ne "2.prems"(2)])
    then show ?thesis
      by (meson sublist_drop sublist_order.order_trans)
  next
    case False
    with "2.prems"(3) ne have "prefix q (replace_all old new (c # cs)) \<or> sublist q (replace_all old new cs)"
      by (auto simp: sublist_Cons_right)
    then show ?thesis
    proof
      assume "prefix q (replace_all old new (c # cs))"
      from prefix_replace_all_out [OF ne cfq suffix_order.order_refl this]
      show ?thesis by (rule prefix_imp_sublist)
    next
      assume "sublist q (replace_all old new cs)"
      from "2.IH"(3) [OF ne False ne "2.prems"(2) this] show ?thesis
        by (simp add: sublist_Cons_right)
    qed
  qed
qed

text \<open>A pattern that does not overlap itself: every occurrence is replaced.\<close>

lemma replace_count_count_occ:
  "p \<noteq> [] \<Longrightarrow> clash_free (tl p) p \<Longrightarrow> replace_count p s = count_occ p s"
proof (induction p s rule: replace_count.induct)
  case (1 old)
  then show ?case by simp
next
  case (2 old c cs)
  note ne = \<open>old \<noteq> []\<close>
  show ?case
  proof (cases "prefix old (c # cs)")
    case True
    then obtain rest where s: "c # cs = old @ rest" by (auto simp: prefix_def)
    with ne have cs: "cs = tl old @ rest" by (cases old) auto
    from s have d: "drop (length old) (c # cs) = rest" by simp
    have "count_occ old cs = count_occ old rest"
      unfolding cs by (rule count_occ_append_free [OF "2.prems"(2)])
    with "2.IH"(2) [OF ne True ne "2.prems"(2)] ne True d show ?thesis by simp
  next
    case False
    with "2.IH"(3) [OF ne False ne "2.prems"(2)] ne show ?thesis by simp
  qed
qed

section \<open>The whole rule set\<close>

lemma apply_rules_Cons: "apply_rules (rule # rs) c = apply_rules rs (apply_rule rule c)"
  by (simp add: apply_rules_def)

lemma apply_rules_append: "apply_rules (xs @ ys) c = apply_rules ys (apply_rules xs c)"
  by (simp add: apply_rules_def)

lemma fired_rules_append:
  "fired_rules (xs @ ys) c = fired_rules xs c @ fired_rules ys (apply_rules xs c)"
proof (induction xs arbitrary: c)
  case Nil
  then show ?case by (simp add: apply_rules_def)
next
  case (Cons rule xs)
  then show ?case
    by (simp add: apply_rules_Cons apply_rule_def replace_all_no_occ)
qed

lemma fired_rules_subset: "set (fired_rules rs c) \<subseteq> set rs"
  by (induction rs arbitrary: c) auto

lemma count_occ_apply_rules:
  "\<forall>rule \<in> set rs. fst rule \<noteq> [] \<and> no_overlap (snd rule) q \<and> no_overlap (fst rule) q \<Longrightarrow>
   count_occ q (apply_rules rs c) = count_occ q c"
  by (induction rs arbitrary: c)
     (simp_all add: apply_rules_def apply_rule_def count_occ_replace_all)

lemma sublist_apply_rules:
  "\<forall>rule \<in> set rs. fst rule \<noteq> [] \<and> no_overlap (snd rule) q \<Longrightarrow>
   sublist q (apply_rules rs c) \<Longrightarrow> sublist q c"
proof (induction rs arbitrary: c)
  case Nil
  then show ?case by (simp add: apply_rules_def)
next
  case (Cons rule rs)
  from Cons.prems(2) have "sublist q (apply_rules rs (apply_rule rule c))"
    by (simp add: apply_rules_Cons)
  with Cons.IH Cons.prems(1) have "sublist q (apply_rule rule c)" by simp
  with Cons.prems(1) show ?case
    by (auto simp: apply_rule_def dest: sublist_replace_all)
qed

lemma independentD:
  assumes "independent rs"
  shows "distinct (map fst rs)"
    and "r \<in> set rs \<Longrightarrow> fst r \<noteq> [] \<and> clash_free (tl (fst r)) (fst r) \<and>
        (\<forall>other \<in> set rs. no_overlap (snd r) (fst other) \<and>
             (fst other = fst r \<or> no_overlap (fst r) (fst other)))"
  using assms by (simp_all add: independent_def list_all_iff)

text \<open>What \<open>independent\<close> gives for one rule of the list.\<close>

lemma independent_split:
  assumes "independent (pre @ rule # post)"
  shows "fst rule \<noteq> []" and "clash_free (tl (fst rule)) (fst rule)"
    and "no_overlap (snd rule) (fst rule)"
    and "\<forall>other \<in> set pre. fst other \<noteq> [] \<and> no_overlap (snd other) (fst rule) \<and>
            no_overlap (fst other) (fst rule)"
    and "\<forall>other \<in> set post. fst other \<noteq> [] \<and> no_overlap (snd other) (fst rule)"
proof -
  let ?rs = "pre @ rule # post"
  note d = independentD(1) [OF assms] and each = independentD(2) [OF assms]
  have r: "rule \<in> set ?rs" by simp
  from each [OF r] show "fst rule \<noteq> []" and "clash_free (tl (fst rule)) (fst rule)"
    and "no_overlap (snd rule) (fst rule)" using r by blast+
  show "\<forall>other \<in> set pre. fst other \<noteq> [] \<and> no_overlap (snd other) (fst rule) \<and>
            no_overlap (fst other) (fst rule)"
  proof
    fix other assume o: "other \<in> set pre"
    then have o': "other \<in> set ?rs" by simp
    from d o have "fst rule \<noteq> fst other" by auto
    with each [OF o'] r show "fst other \<noteq> [] \<and> no_overlap (snd other) (fst rule) \<and>
            no_overlap (fst other) (fst rule)" by blast
  qed
  show "\<forall>other \<in> set post. fst other \<noteq> [] \<and> no_overlap (snd other) (fst rule)"
  proof
    fix other assume o: "other \<in> set post"
    then have o': "other \<in> set ?rs" by simp
    with each [OF o'] r show "fst other \<noteq> [] \<and> no_overlap (snd other) (fst rule)" by blast
  qed
qed

text \<open>With independent rules, the pattern of a rule does not occur in the final content.\<close>

lemma independent_removes:
  assumes "independent (pre @ rule # post)"
  shows "\<not> sublist (fst rule) (apply_rules (pre @ rule # post) c)"
proof
  assume "sublist (fst rule) (apply_rules (pre @ rule # post) c)"
  then have "sublist (fst rule) (apply_rules post (apply_rule rule (apply_rules pre c)))"
    by (simp add: apply_rules_append apply_rules_Cons)
  from sublist_apply_rules [OF independent_split(5) [OF assms] this]
  have "sublist (fst rule) (replace_all (fst rule) (snd rule) (apply_rules pre c))"
    by (simp add: apply_rule_def)
  with replace_all_removes [OF independent_split(1,3) [OF assms]] show False by blast
qed

lemma independent_final_free:
  assumes "independent rs" and "rule \<in> set rs"
  shows "\<not> sublist (fst rule) (apply_rules rs c)"
proof -
  from assms(2) obtain pre post where "rs = pre @ rule # post" by (auto dest: split_list)
  with assms(1) independent_removes show ?thesis by blast
qed

text \<open>
  C2: the substitution is idempotent on the rule tables of the source: for every
  content it returns a content on which it returns the same content again, with an
  empty list of fired rules.
\<close>

theorem substitute_idempotent:
  "\<exists>final fired. substitute content = Inr (final, fired) \<and> substitute final = Inr (final, [])"
proof -
  let ?final = "apply_rules RULE_SET content"
  have "\<forall>rule \<in> set RULE_SET. \<not> sublist (fst rule) ?final"
    using independent_final_free [OF rules_independent] by blast
  from no_pattern_rules [OF this] have "substitute ?final = Inr (?final, [])"
    by (simp add: substitute_literal)
  then show ?thesis by (simp add: substitute_literal)
qed


theorem substitute_idempotent_witness:
  "substitute ex_content = Inr (ex_migrated, [rule_line ex_rule]) \<and>
   substitute ex_migrated = Inr (ex_migrated, [])"
  using substitute_idempotent [of ex_content]
  by (simp add: substitute_literal apply_rules_ex fired_rules_ex)

lemma distinct_map_inj: "inj f \<Longrightarrow> distinct xs \<Longrightarrow> distinct (map f xs)"
  by (auto simp: distinct_map intro: inj_on_subset)

lemma rules_lines_distinct: "distinct (map rule_line RULE_SET)"
proof -
  have inj: "inj (map (of_char :: char \<Rightarrow> nat))" by (simp add: inj_of_char)
  have "distinct (map (\<lambda>rule. ''  '' @ fst rule @ '' -> '' @ snd rule)
          (UI_REPLACEMENTS @ DOMAIN_REPLACEMENTS @ STORE_REPLACEMENTS))"
    by code_simp
  from distinct_map_inj [OF inj this] show ?thesis
    by (simp add: RULE_SET_def rule_line_def change_line_def literal_def str_def o_def)
qed


text \<open>
  C3: when the pattern of a rule of the tables occurs \<open>n \<ge> 1\<close> times in the content
  of a file, it still occurs \<open>n\<close> times when the turn of the rule comes, the rule
  replaces all \<open>n\<close> occurrences (none is left in the final content), and the line of
  the rule is exactly once in \<open>changes_made\<close>, whatever \<open>n\<close> is.
\<close>

theorem all_occurrences_replaced:
  assumes split: "RULE_SET = pre @ rule # post"
    and occ: "count_occ (fst rule) content = n" and n: "1 \<le> n"
  shows "\<exists>before fired_before final fired.
           apply_replacements pre (content, []) = Inr (before, fired_before) \<and>
           count_occ (fst rule) before = n \<and>
           replace_count (fst rule) before = n \<and>
           substitute content = Inr (final, fired) \<and>
           count_occ (fst rule) final = 0 \<and>
           count_list fired (rule_line rule) = 1"
proof -
  let ?before = "apply_rules pre content"
  let ?final = "apply_rules RULE_SET content"
  let ?fired = "map rule_line (fired_rules RULE_SET content)"
  from rules_independent split have ind: "independent (pre @ rule # post)" by simp
  from rules_literal [unfolded split] have "list_all literal_rule pre" by simp
  from apply_replacements_literal [OF this, of content "[]"]
  have 1: "apply_replacements pre (content, []) =
             Inr (?before, map rule_line (fired_rules pre content))" by simp
  have 2: "count_occ (fst rule) ?before = n"
    using count_occ_apply_rules [OF independent_split(4) [OF ind], of content] occ by simp
  have 3: "replace_count (fst rule) ?before = n"
    using replace_count_count_occ [OF independent_split(1,2) [OF ind], of ?before] 2 by simp
  have "\<not> sublist (fst rule) ?final"
    using independent_removes [OF ind, of content] split by simp
  then have 4: "count_occ (fst rule) ?final = 0"
    using count_occ_pos [of "fst rule" ?final] by simp
  from 2 n have here: "sublist (fst rule) ?before"
    using count_occ_pos [of "fst rule" ?before] by simp
  have fired: "fired_rules RULE_SET content =
      fired_rules pre content @ rule # fired_rules post (apply_rule rule ?before)"
    using here by (simp add: split fired_rules_append)
  from rules_lines_distinct [unfolded split]
  have "rule_line rule \<notin> rule_line ` set pre" and "rule_line rule \<notin> rule_line ` set post"
    by auto
  with fired_rules_subset [of pre content] fired_rules_subset [of post "apply_rule rule ?before"]
  have "rule_line rule \<notin> set (map rule_line (fired_rules pre content))"
    and "rule_line rule \<notin> set (map rule_line (fired_rules post (apply_rule rule ?before)))"
    by auto
  then have 5: "count_list ?fired (rule_line rule) = 1"
    by (simp add: fired count_list_0_iff)
  from 1 2 3 4 5 show ?thesis by (simp add: substitute_literal)
qed

lemma ex_three_count: "count_occ (fst ex_rule) ex_three = 3"
  by (simp add: ex_rule_def ex_three_def str_def newline_def)

lemma ex_three_result:
  "apply_rules RULE_SET ex_three = ex_three_migrated \<and> fired_rules RULE_SET ex_three = [ex_rule]"
  by (simp add: apply_rules_def apply_rule_def RULE_SET_def UI_REPLACEMENTS_def literal_def
      DOMAIN_REPLACEMENTS_def STORE_REPLACEMENTS_def ex_three_def ex_three_migrated_def
      ex_rule_def str_def newline_def sublist_code)

lemma ex_rule_split:
  "RULE_SET = map literal (UI_REPLACEMENTS @ DOMAIN_REPLACEMENTS) @ ex_rule #
              [literal (''from crate::store'', ''from ruxlog_shared::store'')]"
  by (simp add: RULE_SET_def STORE_REPLACEMENTS_def ex_rule_def literal_def)

theorem all_occurrences_replaced_witness:
  "count_occ (fst ex_rule) ex_three = 3 \<and>
   substitute ex_three = Inr (ex_three_migrated, [rule_line ex_rule]) \<and>
   count_occ (fst ex_rule) ex_three_migrated = 0 \<and>
   count_list [rule_line ex_rule] (rule_line ex_rule) = 1"
proof -
  from all_occurrences_replaced [OF ex_rule_split ex_three_count]
  have "count_occ (fst ex_rule) (apply_rules RULE_SET ex_three) = 0"
    by (auto simp: substitute_literal)
  with ex_three_count ex_three_result show ?thesis
    by (simp add: substitute_literal)
qed

end
